theory Spec2Isabelle
  imports Main "HOL-Library.Sublist"
begin

section \<open>XInclude resolution of vscode-sxml (src/services/xinclude.ts)\<close>

text \<open>
  The module has two parts: the fragment selector \<open>selectXPointerFragment\<close>, which
  cuts one element out of an XML text, and the resolver \<open>resolveXIncludes\<close>, which
  replaces inclusion elements by the text they refer to.

  Both drive a SaxesParser (a third-party library) and react to its \<open>opentag\<close> and
  \<open>closetag\<close> events. The parser is not part of the module, so it is a parameter of
  the model: a function from the text to the run of the parser on it, that is, the events
  it emits in order, the failure it ends with (if any), and the position it reports once
  \<open>write(...).close()\<close> has returned or thrown.

  JavaScript strings are sequences of UTF-16 code units; the model uses \<open>string\<close>,
  so it covers the texts whose code units are below 256.
\<close>

subsection \<open>JavaScript strings\<close>

text \<open>\<open>\s\<close> of a regular expression, and the characters \<open>trim\<close> removes.\<close>

definition is_space :: "char \<Rightarrow> bool" where
  "is_space c = (c \<in> set [CHR 0x09, CHR 0x0A, CHR 0x0B, CHR 0x0C, CHR 0x0D, CHR 0x20, CHR 0xA0])"

text \<open>The characters \<open>.\<close> of a regular expression does not match.\<close>

definition is_line_terminator :: "char \<Rightarrow> bool" where
  "is_line_terminator c = (c = CHR 0x0A \<or> c = CHR 0x0D)"

definition trim :: "string \<Rightarrow> string" where
  "trim s = rev (dropWhile is_space (rev (dropWhile is_space s)))"

text \<open>\<open>s.substring(a, b)\<close>: both indices are clamped to the length, and swapped when
  the first is the larger one. \<open>s.substring(a)\<close> is \<open>drop a s\<close>.\<close>

definition substring :: "string \<Rightarrow> nat \<Rightarrow> nat \<Rightarrow> string" where
  "substring s a b =
     (let a' = min a (length s); b' = min b (length s)
      in take (max a' b' - min a' b') (drop (min a' b') s))"

text \<open>\<open>s.lastIndexOf(c, k)\<close> for a single character: the largest index at most \<open>k\<close>
  that holds \<open>c\<close>; \<open>None\<close> stands for the result -1.\<close>

fun lastIndexFrom :: "string \<Rightarrow> char \<Rightarrow> nat \<Rightarrow> nat option" where
  "lastIndexFrom s c 0 = (if 0 < length s \<and> s ! 0 = c then Some 0 else None)"
| "lastIndexFrom s c (Suc k) =
     (if Suc k < length s \<and> s ! Suc k = c then Some (Suc k) else lastIndexFrom s c k)"

text \<open>\<open>xmlSource.lastIndexOf("<", position - 1)\<close>. A negative start index is clamped
  to 0 by JavaScript, which is what the truncating subtraction of \<open>nat\<close> gives for
  position 0.\<close>

definition tagStartBefore :: "string \<Rightarrow> nat \<Rightarrow> nat option" where
  "tagStartBefore xmlSource position = lastIndexFrom xmlSource CHR ''<'' (position - 1)"

text \<open>\<open>s.split(d)\<close> for a single character.\<close>

fun split_on :: "char \<Rightarrow> string \<Rightarrow> string list" where
  "split_on d [] = [[]]"
| "split_on d (c # cs) =
     (if c = d then [] # split_on d cs
      else (case split_on d cs of [] \<Rightarrow> [[c]] | w # ws \<Rightarrow> (c # w) # ws))"

text \<open>\<open>String(n)\<close> for a natural number.\<close>

definition digit_char :: "nat \<Rightarrow> char" where
  "digit_char n = ''0123456789'' ! n"

fun string_of_nat :: "nat \<Rightarrow> string" where
  "string_of_nat n =
     (if n < 10 then [digit_char n] else string_of_nat (n div 10) @ [digit_char (n mod 10)])"

declare string_of_nat.simps [simp del]

text \<open>\<open>xs.join(sep)\<close>.\<close>

fun join :: "string \<Rightarrow> string list \<Rightarrow> string" where
  "join sep [] = []"
| "join sep [x] = x"
| "join sep (x # y # ys) = x @ sep @ join sep (y # ys)"

text \<open>A match of \<open>/^name\((.+)\)$/\<close>: the text starts with the name and an opening
  parenthesis, ends with a closing one, and what lies between is not empty and holds no
  line terminator. The result is the captured group.\<close>

definition match_call :: "string \<Rightarrow> string \<Rightarrow> string option" where
  "match_call name s =
     (let p = name @ ''(''; inner = take (length s - length p - 1) (drop (length p) s)
      in if length p + 2 \<le> length s \<and> take (length p) s = p \<and> last s = CHR '')''
            \<and> list_all (\<lambda>c. \<not> is_line_terminator c) inner
         then Some inner else None)"

definition is_quote :: "char \<Rightarrow> bool" where
  "is_quote c = (c = CHR 0x27 \<or> c = CHR 0x22)"

text \<open>A match of \<open>/^id\(['"]([^'"]+)['"]\)$/\<close>.\<close>

definition match_id_call :: "string \<Rightarrow> string option" where
  "match_id_call s =
     (let inner = take (length s - 6) (drop 4 s)
      in if 7 \<le> length s \<and> take 3 s = ''id('' \<and> is_quote (s ! 3)
            \<and> is_quote (s ! (length s - 2)) \<and> last s = CHR '')''
            \<and> list_all (\<lambda>c. \<not> is_quote c) inner
         then Some inner else None)"

subsection \<open>Errors\<close>

text \<open>Every value the module throws or receives as a rejection. \<open>Rejected\<close> is a
  rejection of a collaborator (fetch, the document store), given by its rendering.\<close>

datatype error =
    EmptyElementXPointer
  | InvalidElementStep string
  | EmptyXPointerTarget
  | NoTargetStart
  | StepOutOfRange nat nat nat "string option"
  | TargetNotFound string
  | ParseFailure string
  | FetchFailed string string
  | Rejected string

text \<open>\<open>formatStepError\<close> (lines 188-191).\<close>

definition formatStepError :: "nat \<Rightarrow> nat \<Rightarrow> nat \<Rightarrow> string option \<Rightarrow> string" where
  "formatStepError step requested available anchor =
     (let anchorInfo = (case anchor of None \<Rightarrow> '''' | Some a \<Rightarrow>
                          if a = '''' then '''' else '' after anchor '' @ [CHR 0x22] @ a @ [CHR 0x22])
      in ''XInclude xpointer element() step '' @ string_of_nat step @ '' out of range''
         @ anchorInfo @ '': requested '' @ string_of_nat requested @ '', found ''
         @ string_of_nat available @ '' child elements.'')"

fun message :: "error \<Rightarrow> string" where
  "message EmptyElementXPointer = ''Empty element() XPointer.''"
| "message (InvalidElementStep t) = ''Invalid element() step: '' @ t"
| "message EmptyXPointerTarget = ''Empty xpointer target.''"
| "message NoTargetStart = ''Could not find start of xpointer target.''"
| "message (StepOutOfRange step requested available anchor) =
     formatStepError step requested available anchor"
| "message (TargetNotFound t) = ''XInclude xpointer target not found: '' @ t"
| "message (ParseFailure m) = m"
| "message (FetchFailed url statusText) = ''Failed to fetch '' @ url @ '': '' @ statusText"
| "message (Rejected r) = r"

text \<open>The text \<open>${err}\<close> puts into a template: an \<open>Error\<close> object renders as
  \<open>Error: message\<close>.\<close>

fun render :: "error \<Rightarrow> string" where
  "render (Rejected r) = r"
| "render e = ''Error: '' @ message e"

subsection \<open>The parser's events\<close>

record attr =
  attr_prefix :: string
  attr_local :: string
  attr_uri :: string
  attr_value :: string

text \<open>A SaxesTag of a parser with \<open>xmlns: true\<close>. The attributes are keyed by their
  qualified names; the parser rejects a tag that repeats one.\<close>

record tag =
  tag_uri :: string
  tag_local :: string
  attributes :: "(string \<times> attr) list"
  isSelfClosing :: bool

text \<open>An event carries what the handler reads from the parser when it runs:
  \<open>position\<close>, \<open>line\<close> and \<open>column\<close> at an open tag, \<open>position\<close> at a close tag.\<close>

datatype event =
    OpenTag tag nat nat nat
  | CloseTag tag nat

record sax_run =
  events :: "event list"
  failure :: "string option"
  final_position :: nat

subsection \<open>The fragment selector\<close>

definition XML_NS :: string where
  "XML_NS = ''http://www.w3.org/XML/1998/namespace''"

text \<open>\<open>normalizeXPointer\<close> (lines 10-16).\<close>

definition normalizeXPointer :: "string \<Rightarrow> string" where
  "normalizeXPointer xpointer =
     (let trimmed = trim xpointer;
          inner = (case match_call ''xpointer'' trimmed of Some w \<Rightarrow> trim w | None \<Rightarrow> trimmed)
      in case match_id_call inner of Some i \<Rightarrow> i | None \<Rightarrow> inner)"

text \<open>\<open>matchesId\<close> (lines 18-27).\<close>

definition matchesId :: "(string \<times> attr) list \<Rightarrow> string \<Rightarrow> bool" where
  "matchesId attrs targetId =
     list_ex (\<lambda>a. if attr_local a \<noteq> ''id'' then False
                  else (let isXmlId = (attr_uri a = XML_NS \<or> attr_prefix a = ''xml'');
                            isPlainId = (attr_prefix a = '''')
                        in (isXmlId \<or> isPlainId) \<and> attr_value a = targetId))
             (map snd attrs)"

datatype ElementScheme =
    Positional "nat list"
  | IdScheme string "nat list"

text \<open>\<open>isIntegerToken\<close>, the test of \<open>/^[1-9]\d*$/\<close>, and \<open>Number\<close> on such a token
  (exact; JavaScript rounds from \<open>2^53\<close> on).\<close>

definition is_digit :: "char \<Rightarrow> bool" where
  "is_digit c = (48 \<le> (of_char c :: nat) \<and> (of_char c :: nat) \<le> 57)"

definition isIntegerToken :: "string \<Rightarrow> bool" where
  "isIntegerToken token =
     (case token of [] \<Rightarrow> False
      | c # cs \<Rightarrow> 49 \<le> (of_char c :: nat) \<and> (of_char c :: nat) \<le> 57 \<and> list_all is_digit cs)"

definition Number :: "string \<Rightarrow> nat" where
  "Number token = foldl (\<lambda>n c. 10 * n + (of_char c - 48)) 0 token"

text \<open>\<open>tokens.map\<close> with a callback that throws at a token that is no integer: the
  first such token aborts the map.\<close>

definition stepsOf :: "string list \<Rightarrow> error + nat list" where
  "stepsOf tokens =
     (case find (\<lambda>t. \<not> isIntegerToken t) tokens of
        Some t \<Rightarrow> Inl (InvalidElementStep t)
      | None \<Rightarrow> Inr (map Number tokens))"

text \<open>\<open>parseElementScheme\<close> (lines 33-70); \<open>Inr None\<close> is the result \<open>null\<close>.\<close>

definition parseElementScheme :: "string \<Rightarrow> error + ElementScheme option" where
  "parseElementScheme xpointer =
     (let trimmed = trim xpointer;
          inner = (case match_call ''xpointer'' trimmed of Some w \<Rightarrow> trim w | None \<Rightarrow> trimmed)
      in case match_call ''element'' inner of
           None \<Rightarrow> Inr None
         | Some body \<Rightarrow>
             (let content = trim body
              in if content = [] then Inl EmptyElementXPointer
                 else (let tokens = filter (\<lambda>t. t \<noteq> []) (split_on CHR ''/'' content)
                       in case tokens of
                            [] \<Rightarrow> Inl EmptyElementXPointer
                          | first # rest \<Rightarrow>
                              if isIntegerToken first
                              then (case stepsOf tokens of
                                      Inl e \<Rightarrow> Inl e
                                    | Inr steps \<Rightarrow> Inr (Some (Positional steps)))
                              else (case stepsOf rest of
                                      Inl e \<Rightarrow> Inl e
                                    | Inr steps \<Rightarrow> Inr (Some (IdScheme first steps))))))"

text \<open>The variables the two handlers of \<open>selectXPointerFragment\<close> share (lines 80-90).
  \<open>startPos\<close> and \<open>endPos\<close> start at -1, which is \<open>None\<close> here; the two count arrays
  are sparse, an index never written reads \<open>undefined\<close>, which is \<open>None\<close>.\<close>

record selector =
  nesting :: nat
  found :: bool
  targetDepth :: "nat option"
  startPos :: "nat option"
  endPos :: "nat option"
  childCounts :: "nat list"
  elementPath :: "nat list"
  positionalCounts :: "nat \<Rightarrow> nat option"
  idCounts :: "nat \<Rightarrow> nat option"
  idAnchorPath :: "nat list option"
  idAnchorFound :: bool

definition selector_init :: selector where
  "selector_init =
     \<lparr> nesting = 0, found = False, targetDepth = None, startPos = None, endPos = None,
       childCounts = [0], elementPath = [], positionalCounts = (\<lambda>_. None),
       idCounts = (\<lambda>_. None), idAnchorPath = None, idAnchorFound = False \<rparr>"

text \<open>\<open>markTarget\<close> (lines 106-118).\<close>

definition markTarget :: "string \<Rightarrow> tag \<Rightarrow> nat \<Rightarrow> selector \<Rightarrow> error + selector" where
  "markTarget xmlSource node position s =
     (case tagStartBefore xmlSource position of
        None \<Rightarrow> Inl NoTargetStart
      | Some tagStartPosition \<Rightarrow>
          (let s1 = s\<lparr> found := True, startPos := Some tagStartPosition,
                      targetDepth := Some (nesting s) \<rparr>
           in if isSelfClosing node
              then Inr (s1\<lparr> endPos := Some position, targetDepth := None \<rparr>)
              else Inr s1))"

text \<open>The \<open>opentag\<close> handler (lines 95-151). The scheme is \<open>Inl\<close> an element scheme
  or \<open>Inr\<close> the target id of a plain pointer. \<open>childCounts\<close> holds one counter for the
  document and one for every open element, so it is never empty when the parser calls.\<close>

definition select_opentag ::
  "string \<Rightarrow> ElementScheme + string \<Rightarrow> tag \<Rightarrow> nat \<Rightarrow> selector \<Rightarrow> error + selector" where
  "select_opentag xmlSource scheme node position s0 =
     (let currentIndex = last (childCounts s0) + 1;
          s = s0\<lparr> nesting := nesting s0 + 1,
                  childCounts := butlast (childCounts s0) @ [currentIndex, 0],
                  elementPath := elementPath s0 @ [currentIndex] \<rparr>
      in if found s then Inr s
         else (case scheme of
                 Inl (Positional steps) \<Rightarrow>
                   if elementPath s = steps then markTarget xmlSource node position s else Inr s
               | Inl (IdScheme ident steps) \<Rightarrow>
                   (case (if \<not> idAnchorFound s \<and> matchesId (attributes node) ident
                          then (let s1 = s\<lparr> idAnchorFound := True,
                                            idAnchorPath := Some (elementPath s) \<rparr>
                                in if steps = [] then markTarget xmlSource node position s1
                                   else Inr s1)
                          else Inr s) of
                      Inl e \<Rightarrow> Inl e
                    | Inr s2 \<Rightarrow>
                        (case idAnchorPath s2 of
                           Some anchorPath \<Rightarrow>
                             if idAnchorFound s2
                                \<and> length anchorPath < length (elementPath s2)
                                \<and> take (length anchorPath) (elementPath s2) = anchorPath
                                \<and> drop (length anchorPath) (elementPath s2) = steps
                             then markTarget xmlSource node position s2
                             else Inr s2
                         | None \<Rightarrow> Inr s2))
               | Inr targetId \<Rightarrow>
                   if targetId \<noteq> [] \<and> matchesId (attributes node) targetId
                   then markTarget xmlSource node position s else Inr s))"

text \<open>The \<open>closetag\<close> handler (lines 153-183).\<close>

definition select_closetag :: "ElementScheme + string \<Rightarrow> nat \<Rightarrow> selector \<Rightarrow> selector" where
  "select_closetag scheme position s0 =
     (let currentChildCount = last (childCounts s0);
          currentPath = elementPath s0;
          s1 = (case scheme of
                  Inl (Positional steps) \<Rightarrow>
                    (let depthIndex = length currentPath
                     in if depthIndex \<le> length steps \<and> currentPath = take depthIndex steps
                        then s0\<lparr> positionalCounts :=
                                   (positionalCounts s0)(depthIndex \<mapsto> currentChildCount) \<rparr>
                        else s0)
                | _ \<Rightarrow> s0);
          s2 = (case scheme of
                  Inl (IdScheme ident steps) \<Rightarrow>
                    (case idAnchorPath s1 of
                       Some anchorPath \<Rightarrow>
                         if idAnchorFound s1
                         then (if currentPath = anchorPath
                               then s1\<lparr> idCounts := (idCounts s1)(0 \<mapsto> currentChildCount) \<rparr>
                               else if length anchorPath < length currentPath
                               then (let relativePath = drop (length anchorPath) currentPath
                                     in if length relativePath \<le> length steps
                                           \<and> relativePath = take (length relativePath) steps
                                        then s1\<lparr> idCounts := (idCounts s1)
                                                   (length relativePath \<mapsto> currentChildCount) \<rparr>
                                        else s1)
                               else s1)
                         else s1
                     | None \<Rightarrow> s1)
                | _ \<Rightarrow> s1);
          s3 = (if targetDepth s2 = Some (nesting s2)
                then s2\<lparr> endPos := Some position, targetDepth := None \<rparr>
                else s2)
      in s3\<lparr> elementPath := butlast (elementPath s3),
             childCounts := butlast (childCounts s3),
             nesting := nesting s3 - 1 \<rparr>)"

definition select_event ::
  "string \<Rightarrow> ElementScheme + string \<Rightarrow> event \<Rightarrow> selector \<Rightarrow> error + selector" where
  "select_event xmlSource scheme ev s =
     (case ev of
        OpenTag node position line column \<Rightarrow> select_opentag xmlSource scheme node position s
      | CloseTag node position \<Rightarrow> Inr (select_closetag scheme position s))"

text \<open>The parser calls the handler on each event in turn; a handler that throws ends
  the run.\<close>

fun dispatch :: "(event \<Rightarrow> 's \<Rightarrow> error + 's) \<Rightarrow> event list \<Rightarrow> 's \<Rightarrow> error + 's" where
  "dispatch handler [] s = Inr s"
| "dispatch handler (ev # evs) s =
     (case handler ev s of Inl e \<Rightarrow> Inl e | Inr s' \<Rightarrow> dispatch handler evs s')"

text \<open>\<open>parser.write(xmlSource).close()\<close>: the events of the run, then its failure.\<close>

definition parse_with ::
  "(event \<Rightarrow> 's \<Rightarrow> error + 's) \<Rightarrow> sax_run \<Rightarrow> 's \<Rightarrow> error + 's" where
  "parse_with handler run s =
     (case dispatch handler (events run) s of
        Inl e \<Rightarrow> Inl e
      | Inr s' \<Rightarrow> (case failure run of Some m \<Rightarrow> Inl (ParseFailure m) | None \<Rightarrow> Inr s'))"

text \<open>The failure the selector reports when the scan has produced no span
  (lines 187-223).\<close>

fun firstShortStep ::
  "(nat \<Rightarrow> nat option) \<Rightarrow> nat list \<Rightarrow> nat \<Rightarrow> nat \<Rightarrow> (nat \<times> nat \<times> nat) option" where
  "firstShortStep counts steps i 0 = None"
| "firstShortStep counts steps i (Suc n) =
     (case counts i of
        Some available \<Rightarrow>
          if available < steps ! i then Some (i + 1, steps ! i, available)
          else firstShortStep counts steps (i + 1) n
      | None \<Rightarrow> firstShortStep counts steps (i + 1) n)"

definition selectionFailure :: "ElementScheme + string \<Rightarrow> selector \<Rightarrow> error" where
  "selectionFailure scheme s =
     (case scheme of
        Inl (Positional steps) \<Rightarrow>
          if childCounts s ! 0 < steps ! 0
          then StepOutOfRange 1 (steps ! 0) (childCounts s ! 0) None
          else (case firstShortStep (positionalCounts s) steps 1 (length steps - 1) of
                  Some (step, requested, available) \<Rightarrow>
                    StepOutOfRange step requested available None
                | None \<Rightarrow> TargetNotFound (join ''/'' (map string_of_nat steps)))
      | Inl (IdScheme ident steps) \<Rightarrow>
          if \<not> idAnchorFound s then TargetNotFound ident
          else if steps \<noteq> [] \<and> (case idCounts s 0 of Some a \<Rightarrow> a < steps ! 0 | None \<Rightarrow> False)
          then StepOutOfRange 1 (steps ! 0) (the (idCounts s 0)) (Some ident)
          else (case firstShortStep (idCounts s) steps 1 (length steps - 1) of
                  Some (step, requested, available) \<Rightarrow>
                    StepOutOfRange step requested available (Some ident)
                | None \<Rightarrow> TargetNotFound ident)
      | Inr targetId \<Rightarrow> TargetNotFound targetId)"

text \<open>\<open>selectXPointerFragment\<close> (lines 72-226), given the run of the parser on the
  text.\<close>

definition selectXPointerFragment :: "sax_run \<Rightarrow> string \<Rightarrow> string \<Rightarrow> error + string" where
  "selectXPointerFragment run xmlSource xpointer =
     (case parseElementScheme xpointer of
        Inl e \<Rightarrow> Inl e
      | Inr elementScheme \<Rightarrow>
          (let scheme = (case elementScheme of
                           Some es \<Rightarrow> Inl es
                         | None \<Rightarrow> Inr (normalizeXPointer xpointer))
           in if scheme = Inr [] then Inl EmptyXPointerTarget
              else (case parse_with (select_event xmlSource scheme) run selector_init of
                      Inl e \<Rightarrow> Inl e
                    | Inr s \<Rightarrow>
                        (case (startPos s, endPos s) of
                           (Some a, Some b) \<Rightarrow> Inr (substring xmlSource a b)
                         | _ \<Rightarrow> Inl (selectionFailure scheme s)))))"

subsection \<open>The collaborators of the resolver\<close>

record uri =
  scheme :: string
  uri_text :: string

record response =
  ok :: bool
  statusText :: string
  body :: "error + string"

record document =
  doc_text :: string
  doc_uri :: uri

text \<open>
  What the resolver takes from outside the module: the two constants of
  \<open>../constants\<close> that name the inclusion element, the parser, the two settings of
  the \<open>sxml\<close> configuration (\<open>xincludeDepth\<close> is \<open>None\<close> when the setting holds no
  number; \<open>xincludeSupport\<close> is \<open>False\<close> when the setting is \<open>false\<close>), the URL
  functions of the platform (\<open>None\<close> when \<open>new URL\<close> throws), \<open>normalizeSchemaUrl\<close> of
  \<open>../utils\<close>, \<open>Uri.parse\<close>, \<open>fetch\<close> and \<open>workspace.openTextDocument\<close>. The
  last field is the time each deferred fragment takes to settle, by its URL; it decides
  the order in which the fragments of one document complete.
\<close>

record host =
  XINCLUDE_NS :: string
  XINCLUDE_LOCAL :: string
  parser :: "string \<Rightarrow> sax_run"
  xincludeDepth :: "int option"
  xincludeSupport :: bool
  encodeURIComponent :: "char \<Rightarrow> string"
  absoluteURL :: "string \<Rightarrow> string option"
  relativeURL :: "string \<Rightarrow> string \<Rightarrow> string option"
  normalizeSchemaUrl :: "string \<Rightarrow> string"
  uriParse :: "string \<Rightarrow> uri"
  fetch :: "string \<Rightarrow> error + response"
  openTextDocument :: "uri \<Rightarrow> error + document"
  latency :: "string \<Rightarrow> nat"

text \<open>What the resolver does to the world besides returning a text.\<close>

datatype effect =
    Advisory string
  | FetchRequest string
  | OpenRequest uri

subsection \<open>Href resolution\<close>

text \<open>\<open>iriToUri\<close> (lines 228-235).\<close>

definition iriToUri :: "host \<Rightarrow> string \<Rightarrow> string" where
  "iriToUri h iri =
     concat (map (\<lambda>c. if (of_char c :: nat) \<le> 0x7f then [c] else encodeURIComponent h c) iri)"

text \<open>\<open>resolveXIncludeHref\<close> (lines 237-254).\<close>

definition resolveXIncludeHref :: "host \<Rightarrow> string \<Rightarrow> uri option \<Rightarrow> string" where
  "resolveXIncludeHref h href baseUri =
     (let hrefUri = iriToUri h href
      in case absoluteURL h hrefUri of
           Some u \<Rightarrow> u
         | None \<Rightarrow>
             (case baseUri of
                Some b \<Rightarrow>
                  (case relativeURL h hrefUri (uri_text b) of
                     Some u \<Rightarrow> u
                   | None \<Rightarrow> normalizeSchemaUrl h href)
              | None \<Rightarrow> normalizeSchemaUrl h href))"

subsection \<open>The resolver's scan\<close>

text \<open>\<open>xincludeDepth as number || 50\<close> (line 266): 0 counts as unset.\<close>

definition depthLimit :: "host \<Rightarrow> int" where
  "depthLimit h = (case xincludeDepth h of None \<Rightarrow> 50 | Some n \<Rightarrow> if n = 0 then 50 else n)"

text \<open>What a deferred fragment keeps of its directive: the constants \<open>hrefURL\<close>,
  \<open>includeUri\<close>, \<open>line\<close> and \<open>col\<close> of lines 309-313 and the value of the xpointer
  attribute.\<close>

record deferred =
  d_hrefURL :: string
  d_includeUri :: uri
  d_xpointer :: "string option"
  d_line :: nat
  d_col :: nat

text \<open>An entry of \<open>outputParts\<close>: a string or a promise of one.\<close>

datatype part =
    Literal string
  | Deferred deferred

record resolver =
  outputParts :: "part list"
  lastPos :: nat
  foundXi :: bool
  effects :: "effect list"

definition resolver_init :: resolver where
  "resolver_init = \<lparr> outputParts = [], lastPos = 0, foundXi = False, effects = [] \<rparr>"

definition dq :: string where
  "dq = [CHR 0x22]"

text \<open>The three markers written during the scan or when a fragment settles
  (lines 293, 301, 314-330).\<close>

definition warningPI :: "nat \<Rightarrow> nat \<Rightarrow> string" where
  "warningPI line col =
     ''<?xml-xi-map-enter warning='' @ dq @ ''XInclude resolution is turned off in settings.''
     @ dq @ '' parent-line='' @ dq @ string_of_nat line @ dq @ '' parent-col='' @ dq
     @ string_of_nat col @ dq @ ''?><?xml-xi-map-leave?>''"

definition errorPI :: "string \<Rightarrow> nat \<Rightarrow> nat \<Rightarrow> string" where
  "errorPI err position col =
     ''<?xml-xi-error err='' @ dq @ err @ dq @ '' parent-start='' @ dq
     @ string_of_nat position @ dq @ '' parent-col='' @ dq @ string_of_nat col @ dq @ ''?>''"

definition makePI :: "nat \<Rightarrow> deferred \<Rightarrow> string \<Rightarrow> string" where
  "makePI depth d resolvedNestedXml =
     (if 0 < depth
      then ''<?xml-xi-nested-enter uri='' @ dq @ d_hrefURL d @ dq @ ''?>''
           @ resolvedNestedXml @ ''<?xml-xi-nested-leave?>''
      else ''<?xml-xi-map-enter uri='' @ dq @ d_hrefURL d @ dq @ '' parent-line='' @ dq
           @ string_of_nat (d_line d) @ dq @ '' parent-col='' @ dq @ string_of_nat (d_col d)
           @ dq @ ''?>'' @ resolvedNestedXml @ ''<?xml-xi-map-leave?>'')"

text \<open>\<open>handleErr\<close> (lines 328-330). It runs when the fragment is rejected, which is
  after the scan; \<open>position\<close> is what the parser reports then.\<close>

definition handleErr :: "nat \<Rightarrow> deferred \<Rightarrow> error \<Rightarrow> string" where
  "handleErr position d err = errorPI (render err) position (d_col d)"

definition isInclude :: "host \<Rightarrow> tag \<Rightarrow> bool" where
  "isInclude h node = (tag_uri node = XINCLUDE_NS h \<and> tag_local node = XINCLUDE_LOCAL h)"

text \<open>The \<open>opentag\<close> handler of the resolver (lines 263-369). The call of \<open>fetch\<close> or
  \<open>openTextDocument\<close> is made here, during the scan; what comes back is consumed
  when the fragment is awaited.\<close>

definition resolve_opentag ::
  "host \<Rightarrow> string \<Rightarrow> nat \<Rightarrow> uri option \<Rightarrow> tag \<Rightarrow> nat \<Rightarrow> nat \<Rightarrow> nat \<Rightarrow> resolver \<Rightarrow> resolver" where
  "resolve_opentag h xmlSource depth baseUri node position line column st0 =
     (if isInclude h node
      then (let st = st0\<lparr> foundXi := True \<rparr>
            in if int depth < depthLimit h
               then (case tagStartBefore xmlSource position of
                       None \<Rightarrow> st
                     | Some tagStartPosition \<Rightarrow>
                         (let st1 = st\<lparr> outputParts := outputParts st
                                         @ [Literal (substring xmlSource (lastPos st) tagStartPosition)] \<rparr>;
                              st2 = (if isSelfClosing node then st1\<lparr> lastPos := position \<rparr> else st1)
                          in if \<not> xincludeSupport h
                             then st2\<lparr> outputParts := outputParts st2
                                        @ [Literal (warningPI line column)] \<rparr>
                             else (let parseMode = (case map_of (attributes node) ''parse'' of
                                                      Some a \<Rightarrow> attr_value a
                                                    | None \<Rightarrow> ''xml'')
                                   in if parseMode \<noteq> ''xml''
                                      then st2\<lparr> outputParts := outputParts st2
                                                 @ [Literal (errorPI (''Unsupported XInclude parse value: ''
                                                               @ parseMode) position column)] \<rparr>
                                      else (case map_of (attributes node) ''href'' of
                                              None \<Rightarrow> st2
                                            | Some hrefAttr \<Rightarrow>
                                                (let hrefURL = resolveXIncludeHref h (attr_value hrefAttr) baseUri;
                                                     includeUri = uriParse h hrefURL;
                                                     d = \<lparr> d_hrefURL = hrefURL, d_includeUri = includeUri,
                                                           d_xpointer = map_option attr_value
                                                             (map_of (attributes node) ''xpointer''),
                                                           d_line = line, d_col = column \<rparr>
                                                 in st2\<lparr> outputParts := outputParts st2 @ [Deferred d],
                                                         effects := effects st2
                                                           @ [if scheme includeUri = ''http''
                                                                 \<or> scheme includeUri = ''https''
                                                              then FetchRequest hrefURL
                                                              else OpenRequest includeUri] \<rparr>)))))
               else st\<lparr> effects := effects st
                         @ [Advisory ''Maximum XInclude depth reached, skipping further includes.''] \<rparr>)
      else st0)"

text \<open>The \<open>closetag\<close> handler of the resolver (lines 371-378).\<close>

definition resolve_closetag :: "host \<Rightarrow> nat \<Rightarrow> tag \<Rightarrow> nat \<Rightarrow> resolver \<Rightarrow> resolver" where
  "resolve_closetag h depth node position st =
     (if isInclude h node then (if depth = 0 then st\<lparr> lastPos := position \<rparr> else st) else st)"

definition resolve_event ::
  "host \<Rightarrow> string \<Rightarrow> nat \<Rightarrow> uri option \<Rightarrow> resolver \<Rightarrow> event \<Rightarrow> resolver" where
  "resolve_event h xmlSource depth baseUri st ev =
     (case ev of
        OpenTag node position line column \<Rightarrow>
          resolve_opentag h xmlSource depth baseUri node position line column st
      | CloseTag node position \<Rightarrow> resolve_closetag h depth node position st)"

text \<open>The state of the resolver when \<open>write(...).close()\<close> returns or throws: neither
  handler throws, so every event of the run is handled.\<close>

definition scan :: "host \<Rightarrow> string \<Rightarrow> nat \<Rightarrow> uri option \<Rightarrow> event list \<Rightarrow> resolver" where
  "scan h xmlSource depth baseUri evs = foldl (resolve_event h xmlSource depth baseUri) resolver_init evs"

subsection \<open>Awaiting the fragments\<close>

text \<open>\<open>doc.replace(/^\s*<\?xml.*?\?>\s*/, "")\<close> (lines 342 and 352). \<open>pi_end\<close> is the
  lazy \<open>.*?\?>\<close>: it stops at the first \<open>?>\<close> and fails at a line terminator met
  before one.\<close>

fun pi_end :: "string \<Rightarrow> string option" where
  "pi_end [] = None"
| "pi_end (c # cs) =
     (if c = CHR ''?'' \<and> take 1 cs = ''>'' then Some (drop 1 cs)
      else if is_line_terminator c then None
      else pi_end cs)"

definition stripDeclaration :: "string \<Rightarrow> string" where
  "stripDeclaration doc =
     (let rest = dropWhile is_space doc
      in if take 5 rest = ''<?xml''
         then (case pi_end (drop 5 rest) of
                 Some after \<Rightarrow> dropWhile is_space after
               | None \<Rightarrow> doc)
         else doc)"

text \<open>The body of the two \<open>then(async (doc) => ...)\<close> callbacks up to the recursive
  call (lines 342-345 and 352-355).\<close>

definition narrowed :: "host \<Rightarrow> deferred \<Rightarrow> string \<Rightarrow> error + string" where
  "narrowed h d doc =
     (let text = stripDeclaration doc
      in case d_xpointer d of
           None \<Rightarrow> Inr text
         | Some xp \<Rightarrow>
             if xp = [] then Inr text else selectXPointerFragment (parser h text) text xp)"

text \<open>The text a fragment resolves recursively and the base it resolves it against
  (lines 332-358), or the rejection that ends the chain before the recursive call.\<close>

definition includedText :: "host \<Rightarrow> deferred \<Rightarrow> error + string \<times> uri" where
  "includedText h d =
     (if scheme (d_includeUri d) = ''http'' \<or> scheme (d_includeUri d) = ''https''
      then (case fetch h (d_hrefURL d) of
              Inl e \<Rightarrow> Inl e
            | Inr response \<Rightarrow>
                if \<not> ok response then Inl (FetchFailed (d_hrefURL d) (statusText response))
                else (case body response of
                        Inl e \<Rightarrow> Inl e
                      | Inr doc \<Rightarrow>
                          (case narrowed h d doc of
                             Inl e \<Rightarrow> Inl e
                           | Inr text \<Rightarrow> Inr (text, d_includeUri d))))
      else (case openTextDocument h (d_includeUri d) of
              Inl e \<Rightarrow> Inl e
            | Inr doc \<Rightarrow>
                (case narrowed h d (doc_text doc) of
                   Inl e \<Rightarrow> Inl e
                 | Inr text \<Rightarrow> Inr (text, doc_uri doc))))"

text \<open>\<open>Promise.all\<close> (line 395): the result array has one slot per entry, and each
  entry's value is stored at the entry's own index when the entry settles. A string
  settles at once; a deferred fragment settles after its latency.\<close>

definition completionOrder :: "(string \<Rightarrow> nat) \<Rightarrow> part list \<Rightarrow> nat list" where
  "completionOrder lat parts =
     sort_key (\<lambda>i. case parts ! i of Literal _ \<Rightarrow> 0 | Deferred d \<Rightarrow> Suc (lat (d_hrefURL d)))
       [0..<length parts]"

definition promiseAll :: "nat list \<Rightarrow> string list \<Rightarrow> string list" where
  "promiseAll order vals = fold (\<lambda>i slots. slots[i := vals ! i]) order (replicate (length vals) [])"

text \<open>No deferred fragment is created at or beyond the depth limit; this bounds the
  recursion of the resolver.\<close>

lemma resolve_event_deferred:
  "Deferred d \<in> set (outputParts (resolve_event h xmlSource depth baseUri st ev)) \<Longrightarrow>
   Deferred d \<in> set (outputParts st) \<or> int depth < depthLimit h"
  by (auto simp: resolve_event_def resolve_opentag_def resolve_closetag_def Let_def
           split: event.splits if_splits option.splits)

lemma foldl_resolve_event_deferred:
  "Deferred d \<in> set (outputParts (foldl (resolve_event h xmlSource depth baseUri) st evs)) \<Longrightarrow>
   Deferred d \<in> set (outputParts st) \<or> int depth < depthLimit h"
proof (induction evs arbitrary: st)
  case Nil
  then show ?case by simp
next
  case (Cons ev evs)
  from Cons.IH [of "resolve_event h xmlSource depth baseUri st ev"] Cons.prems
  show ?case using resolve_event_deferred by fastforce
qed

lemma scan_deferred_below_limit:
  "Deferred d \<in> set (outputParts (scan h xmlSource depth baseUri evs)) \<Longrightarrow>
   int depth < depthLimit h"
  using foldl_resolve_event_deferred [of d h xmlSource depth baseUri resolver_init evs]
  by (simp add: scan_def resolver_init_def)

subsection \<open>The resolver\<close>

text \<open>
  \<open>resolveXIncludes\<close> (lines 256-397). The result is the value the returned promise
  settles with (\<open>Inl\<close> a rejection, \<open>Inr\<close> the text) and the effects of the call and
  of the calls nested in it.

  Every deferred fragment of \<open>outputParts\<close> runs to its end, whether the call awaits it
  or returns early from the \<open>catch\<close> block: it settles with the wrapped text of the
  recursive call, or with the error marker of \<open>handleErr\<close>.
\<close>

function resolveXIncludes ::
  "host \<Rightarrow> string \<Rightarrow> nat \<Rightarrow> uri option \<Rightarrow> (error + string) \<times> effect list" where
  "resolveXIncludes h xmlSource depth baseUri =
     (let run = parser h xmlSource;
          st = scan h xmlSource depth baseUri (events run);
          settled = map (\<lambda>p. case p of
                           Literal s \<Rightarrow> (s, [])
                         | Deferred d \<Rightarrow>
                             (case includedText h d of
                                Inl e \<Rightarrow> (handleErr (final_position run) d e, [])
                              | Inr (text, base) \<Rightarrow>
                                  (case resolveXIncludes h text (depth + 1) (Some base) of
                                     (Inr resolved, fx) \<Rightarrow> (makePI depth d resolved, fx)
                                   | (Inl e, fx) \<Rightarrow> (handleErr (final_position run) d e, fx))))
                       (outputParts st);
          fx = effects st @ concat (map snd settled)
      in if failure run \<noteq> None \<and> (0 < depth \<or> \<not> foundXi st)
         then (Inr xmlSource, fx)
         else (let tail = drop (lastPos st) xmlSource;
                   resolvedParts = promiseAll (completionOrder (latency h) (outputParts st @ [Literal tail]))
                                     (map fst settled @ [tail])
               in (Inr (concat resolvedParts), fx)))"
  by pat_completeness auto
termination
  apply (relation "measure (\<lambda>(h, xmlSource, depth, baseUri). nat (depthLimit h - int depth))")
   apply simp
  apply (auto dest: scan_deferred_below_limit)
  done

declare resolveXIncludes.simps [simp del]

text \<open>What one entry of \<open>outputParts\<close> settles with, and the effects of settling it.\<close>

definition settledPart :: "host \<Rightarrow> nat \<Rightarrow> nat \<Rightarrow> part \<Rightarrow> string \<times> effect list" where
  "settledPart h depth position p =
     (case p of
        Literal s \<Rightarrow> (s, [])
      | Deferred d \<Rightarrow>
          (case includedText h d of
             Inl e \<Rightarrow> (handleErr position d e, [])
           | Inr (text, base) \<Rightarrow>
               (case resolveXIncludes h text (depth + 1) (Some base) of
                  (Inr resolved, fx) \<Rightarrow> (makePI depth d resolved, fx)
                | (Inl e, fx) \<Rightarrow> (handleErr position d e, fx))))"

subsection \<open>Well-formed documents\<close>

text \<open>
  The element structure of a well-formed document: an element with the data of its two
  events (the node, then \<open>position\<close>, \<open>line\<close> and \<open>column\<close> at its open tag and
  \<open>position\<close> at its close tag) and its child elements. The parser reports an open
  tag, the events of the children in order, and the close tag; for a self-closing tag it
  reports both events at once.
\<close>

datatype element = Element tag nat nat nat nat "element list"

fun node_of :: "element \<Rightarrow> tag" where
  "node_of (Element node p l c q kids) = node"

fun open_position :: "element \<Rightarrow> nat" where
  "open_position (Element node p l c q kids) = p"

fun close_position :: "element \<Rightarrow> nat" where
  "close_position (Element node p l c q kids) = q"

fun children :: "element \<Rightarrow> element list" where
  "children (Element node p l c q kids) = kids"

fun events_of :: "element \<Rightarrow> event list" where
  "events_of (Element node p l c q kids) =
     OpenTag node p l c # concat (map events_of kids) @ [CloseTag node q]"

text \<open>The run of the parser on a well-formed document with the given root element.\<close>

definition well_formed_run :: "sax_run \<Rightarrow> element \<Rightarrow> bool" where
  "well_formed_run run root = (events run = events_of root \<and> failure run = None)"

text \<open>The element reached from a list of siblings by 1-based child indices.\<close>

fun descend :: "element list \<Rightarrow> nat list \<Rightarrow> element option" where
  "descend sibs [] = None"
| "descend sibs (k # ks) =
     (if 1 \<le> k \<and> k \<le> length sibs
      then (if ks = [] then Some (sibs ! (k - 1)) else descend (children (sibs ! (k - 1))) ks)
      else None)"

text \<open>The first element in document order that carries the id.\<close>

fun first_with_id :: "string \<Rightarrow> element \<Rightarrow> element option"
  and first_with_id_in :: "string \<Rightarrow> element list \<Rightarrow> element option" where
  "first_with_id ident (Element node p l c q kids) =
     (if matchesId (attributes node) ident then Some (Element node p l c q kids)
      else first_with_id_in ident kids)"
| "first_with_id_in ident [] = None"
| "first_with_id_in ident (e # es) =
     (case first_with_id ident e of Some a \<Rightarrow> Some a | None \<Rightarrow> first_with_id_in ident es)"

text \<open>The verbatim span of an element: from the nearest \<open><\<close> before the position
  of its open tag to the position of its close tag.\<close>

definition span_of :: "string \<Rightarrow> element \<Rightarrow> error + string" where
  "span_of xmlSource e =
     (case tagStartBefore xmlSource (open_position e) of
        None \<Rightarrow> Inl NoTargetStart
      | Some a \<Rightarrow>
          Inr (substring xmlSource a
                 (if isSelfClosing (node_of e) then open_position e else close_position e)))"

subsection \<open>A sample workspace\<close>

text \<open>
  Documents of a sample workspace with the runs the parser makes on them, used to
  evaluate the resolver on concrete inputs. Every document is a single line, so the
  parser reports line 1, and as column the position itself. After a run that succeeds
  the parser has reset its position to 0; a run that fails leaves it where it failed.
\<close>

definition XInclude_namespace :: string where
  "XInclude_namespace = ''http://www.w3.org/2001/XInclude''"

definition plain_attr :: "string \<Rightarrow> string \<Rightarrow> string \<times> attr" where
  "plain_attr name v =
     (name, \<lparr> attr_prefix = [], attr_local = name, attr_uri = [], attr_value = v \<rparr>)"

definition xml_id_attr :: "string \<Rightarrow> string \<times> attr" where
  "xml_id_attr v =
     (''xml:id'', \<lparr> attr_prefix = ''xml'', attr_local = ''id'', attr_uri = XML_NS, attr_value = v \<rparr>)"

definition xmlns_xi_attr :: "string \<times> attr" where
  "xmlns_xi_attr =
     (''xmlns:xi'', \<lparr> attr_prefix = ''xmlns'', attr_local = ''xi'',
                      attr_uri = ''http://www.w3.org/2000/xmlns/'',
                      attr_value = XInclude_namespace \<rparr>)"

definition plain_tag :: "string \<Rightarrow> (string \<times> attr) list \<Rightarrow> bool \<Rightarrow> tag" where
  "plain_tag name attrs selfClosing =
     \<lparr> tag_uri = [], tag_local = name, attributes = attrs, isSelfClosing = selfClosing \<rparr>"

definition xi_tag :: "string \<Rightarrow> (string \<times> attr) list \<Rightarrow> bool \<Rightarrow> tag" where
  "xi_tag name attrs selfClosing =
     \<lparr> tag_uri = XInclude_namespace, tag_local = name, attributes = attrs,
       isSelfClosing = selfClosing \<rparr>"

text \<open>The two events of a self-closing tag on line 1.\<close>

definition self_closing :: "tag \<Rightarrow> nat \<Rightarrow> event list" where
  "self_closing node p = [OpenTag node p 1 p, CloseTag node p]"

definition complete_run :: "event list \<Rightarrow> sax_run" where
  "complete_run evs = \<lparr> events = evs, failure = None, final_position = 0 \<rparr>"

definition doc_leaf :: string where
  \<open>doc_leaf = ''<leaf/>''\<close>

definition run_leaf :: sax_run where
  "run_leaf = complete_run (self_closing (plain_tag ''leaf'' [] True) 7)"

definition doc_slow :: string where
  \<open>doc_slow = ''<slow/>''\<close>

definition run_slow :: sax_run where
  "run_slow = complete_run (self_closing (plain_tag ''slow'' [] True) 7)"

definition doc_a1 :: string where
  \<open>doc_a1 = ''<xi:include xmlns:xi="http://www.w3.org/2001/XInclude" href="leaf.xml"/>''\<close>

definition run_a1 :: sax_run where
  "run_a1 = complete_run
     (self_closing (xi_tag ''include'' [xmlns_xi_attr, plain_attr ''href'' ''leaf.xml''] True) 72)"

definition doc_a0 :: string where
  \<open>doc_a0 = ''<xi:include xmlns:xi="http://www.w3.org/2001/XInclude" href="a1.xml"/>''\<close>

definition run_a0 :: sax_run where
  "run_a0 = complete_run
     (self_closing (xi_tag ''include'' [xmlns_xi_attr, plain_attr ''href'' ''a1.xml''] True) 70)"

definition doc_b0 :: string where
  \<open>doc_b0 = ''<xi:include xmlns:xi="http://www.w3.org/2001/XInclude" href="a0.xml"/>''\<close>

definition run_b0 :: sax_run where
  "run_b0 = complete_run
     (self_closing (xi_tag ''include'' [xmlns_xi_attr, plain_attr ''href'' ''a0.xml''] True) 70)"

text \<open>A document that ends inside the element \<open>t\<close>: the parser fails at the end of
  the text, after it has reported the directive.\<close>

definition doc_unclosed :: string where
  \<open>doc_unclosed =
     ''<r xmlns:xi="http://www.w3.org/2001/XInclude"><xi:include href="leaf.xml"/><t>x''\<close>

definition run_unclosed :: sax_run where
  "run_unclosed =
     \<lparr> events = OpenTag (plain_tag ''r'' [xmlns_xi_attr] False) 46 1 46
                # self_closing (xi_tag ''include'' [plain_attr ''href'' ''leaf.xml''] True) 75
                @ [OpenTag (plain_tag ''t'' [] False) 78 1 78],
       failure = Some ''1:79: unclosed tag: t'',
       final_position = 79 \<rparr>"

text \<open>A document whose directive names a file the workspace does not have.\<close>

definition doc_missing :: string where
  \<open>doc_missing =
     ''<r xmlns:xi="http://www.w3.org/2001/XInclude"><xi:include href="missing.xml"/><t/></r>''\<close>

definition run_missing :: sax_run where
  "run_missing = complete_run
     (OpenTag (plain_tag ''r'' [xmlns_xi_attr] False) 46 1 46
      # self_closing (xi_tag ''include'' [plain_attr ''href'' ''missing.xml''] True) 78
      @ self_closing (plain_tag ''t'' [] True) 82
      @ [CloseTag (plain_tag ''r'' [xmlns_xi_attr] False) 86])"

text \<open>Two sibling directives; the first names a resource that is slow to arrive.\<close>

definition doc_two :: string where
  \<open>doc_two =
     ''<r xmlns:xi="http://www.w3.org/2001/XInclude"><xi:include href="slow.xml"/>-<xi:include href="leaf.xml"/></r>''\<close>

definition run_two :: sax_run where
  "run_two = complete_run
     (OpenTag (plain_tag ''r'' [xmlns_xi_attr] False) 46 1 46
      # self_closing (xi_tag ''include'' [plain_attr ''href'' ''slow.xml''] True) 75
      @ self_closing (xi_tag ''include'' [plain_attr ''href'' ''leaf.xml''] True) 105
      @ [CloseTag (plain_tag ''r'' [xmlns_xi_attr] False) 109])"

text \<open>A directive with a fallback that holds a directive of its own.\<close>

definition doc_nested :: string where
  \<open>doc_nested =
     ''<r xmlns:xi="http://www.w3.org/2001/XInclude">A<xi:include href="a1.xml"><xi:fallback><xi:include href="leaf.xml"/></xi:fallback></xi:include>B</r>''\<close>

definition run_nested :: sax_run where
  "run_nested = complete_run
     ([OpenTag (plain_tag ''r'' [xmlns_xi_attr] False) 46 1 46,
       OpenTag (xi_tag ''include'' [plain_attr ''href'' ''a1.xml''] False) 73 1 73,
       OpenTag (xi_tag ''fallback'' [] False) 86 1 86]
      @ self_closing (xi_tag ''include'' [plain_attr ''href'' ''leaf.xml''] True) 115
      @ [CloseTag (xi_tag ''fallback'' [] False) 129,
         CloseTag (xi_tag ''include'' [plain_attr ''href'' ''a1.xml''] False) 142,
         CloseTag (plain_tag ''r'' [xmlns_xi_attr] False) 147])"

text \<open>A directive without href, with a close tag of its own and self-closing.\<close>

definition doc_nohref :: string where
  \<open>doc_nohref = ''<r xmlns:xi="http://www.w3.org/2001/XInclude">A<xi:include></xi:include>B</r>''\<close>

definition run_nohref :: sax_run where
  "run_nohref = complete_run
     [OpenTag (plain_tag ''r'' [xmlns_xi_attr] False) 46 1 46,
      OpenTag (xi_tag ''include'' [] False) 59 1 59,
      CloseTag (xi_tag ''include'' [] False) 72,
      CloseTag (plain_tag ''r'' [xmlns_xi_attr] False) 77]"

definition doc_nohref_sc :: string where
  \<open>doc_nohref_sc = ''<r xmlns:xi="http://www.w3.org/2001/XInclude">A<xi:include/>B</r>''\<close>

definition run_nohref_sc :: sax_run where
  "run_nohref_sc = complete_run
     (OpenTag (plain_tag ''r'' [xmlns_xi_attr] False) 46 1 46
      # self_closing (xi_tag ''include'' [] True) 60
      @ [CloseTag (plain_tag ''r'' [xmlns_xi_attr] False) 65])"

text \<open>A document whose directive names the document \<open>doc_nohref\<close>.\<close>

definition doc_c0 :: string where
  \<open>doc_c0 = ''<xi:include xmlns:xi="http://www.w3.org/2001/XInclude" href="nohref.xml"/>''\<close>

definition run_c0 :: sax_run where
  "run_c0 = complete_run
     (self_closing (xi_tag ''include'' [xmlns_xi_attr, plain_attr ''href'' ''nohref.xml''] True) 74)"

text \<open>Documents without a directive, one of them cut short.\<close>

definition doc_plain :: string where
  \<open>doc_plain = ''<r><t/></r>''\<close>

definition run_plain :: sax_run where
  "run_plain = complete_run
     (OpenTag (plain_tag ''r'' [] False) 3 1 3
      # self_closing (plain_tag ''t'' [] True) 7
      @ [CloseTag (plain_tag ''r'' [] False) 11])"

definition doc_bad :: string where
  \<open>doc_bad = ''<r><t>''\<close>

definition run_bad :: sax_run where
  "run_bad =
     \<lparr> events = [OpenTag (plain_tag ''r'' [] False) 3 1 3, OpenTag (plain_tag ''t'' [] False) 6 1 6],
       failure = Some ''1:6: unclosed tag: t'',
       final_position = 6 \<rparr>"

text \<open>A document with sections, for the fragment selector.\<close>

definition doc_sections :: string where
  \<open>doc_sections =
     ''<root><section xml:id="intro"><p>Intro text.</p></section><section id="body"><p>One</p><p>Two</p></section></root>''\<close>

definition root_sections :: element where
  "root_sections =
     Element (plain_tag ''root'' [] False) 6 1 6 114
       [Element (plain_tag ''section'' [xml_id_attr ''intro''] False) 30 1 30 58
          [Element (plain_tag ''p'' [] False) 33 1 33 48 []],
        Element (plain_tag ''section'' [plain_attr ''id'' ''body''] False) 77 1 77 107
          [Element (plain_tag ''p'' [] False) 80 1 80 87 [],
           Element (plain_tag ''p'' [] False) 90 1 90 97 []]]"

definition run_sections :: sax_run where
  "run_sections = complete_run (events_of root_sections)"

text \<open>A document in which two elements carry the same id.\<close>

definition doc_twice :: string where
  \<open>doc_twice = ''<r><a id="x"><b/></a><c id="x"><d/><e/></c></r>''\<close>

definition root_twice :: element where
  "root_twice =
     Element (plain_tag ''r'' [] False) 3 1 3 47
       [Element (plain_tag ''a'' [plain_attr ''id'' ''x''] False) 13 1 13 21
          [Element (plain_tag ''b'' [] True) 17 1 17 17 []],
        Element (plain_tag ''c'' [plain_attr ''id'' ''x''] False) 31 1 31 43
          [Element (plain_tag ''d'' [] True) 35 1 35 35 [],
           Element (plain_tag ''e'' [] True) 39 1 39 39 []]]"

definition run_twice :: sax_run where
  "run_twice = complete_run (events_of root_twice)"

definition unknown_run :: sax_run where
  "unknown_run = \<lparr> events = [], failure = Some ''1:0: document must contain a root element.'',
                    final_position = 0 \<rparr>"

definition sample_parser :: "string \<Rightarrow> sax_run" where
  "sample_parser xmlSource =
     (if xmlSource = doc_leaf then run_leaf
      else if xmlSource = doc_slow then run_slow
      else if xmlSource = doc_a1 then run_a1
      else if xmlSource = doc_a0 then run_a0
      else if xmlSource = doc_b0 then run_b0
      else if xmlSource = doc_unclosed then run_unclosed
      else if xmlSource = doc_missing then run_missing
      else if xmlSource = doc_two then run_two
      else if xmlSource = doc_nested then run_nested
      else if xmlSource = doc_c0 then run_c0
      else if xmlSource = doc_nohref then run_nohref
      else if xmlSource = doc_nohref_sc then run_nohref_sc
      else if xmlSource = doc_plain then run_plain
      else if xmlSource = doc_bad then run_bad
      else if xmlSource = doc_sections then run_sections
      else unknown_run)"

definition file_uri :: "string \<Rightarrow> uri" where
  "file_uri name = \<lparr> scheme = ''file'', uri_text = ''file:///w/'' @ name \<rparr>"

definition sample_open :: "uri \<Rightarrow> error + document" where
  "sample_open u =
     (if u = file_uri ''leaf.xml'' then Inr \<lparr> doc_text = doc_leaf, doc_uri = u \<rparr>
      else if u = file_uri ''slow.xml'' then Inr \<lparr> doc_text = doc_slow, doc_uri = u \<rparr>
      else if u = file_uri ''a1.xml'' then Inr \<lparr> doc_text = doc_a1, doc_uri = u \<rparr>
      else if u = file_uri ''a0.xml'' then Inr \<lparr> doc_text = doc_a0, doc_uri = u \<rparr>
      else if u = file_uri ''nohref.xml'' then Inr \<lparr> doc_text = doc_nohref, doc_uri = u \<rparr>
      else if u = file_uri ''sections.xml'' then Inr \<lparr> doc_text = doc_sections, doc_uri = u \<rparr>
      else Inl (Rejected (''CodeExpectedError: cannot open '' @ uri_text u)))"

text \<open>The workspace: relative references resolve against the directory of the base,
  nothing is reachable over the network, the settings have their defaults.\<close>

definition sample :: host where
  "sample =
     \<lparr> XINCLUDE_NS = XInclude_namespace,
       XINCLUDE_LOCAL = ''include'',
       parser = sample_parser,
       xincludeDepth = Some 50,
       xincludeSupport = True,
       encodeURIComponent = (\<lambda>c. [c]),
       absoluteURL = (\<lambda>s. if take 8 s = ''file:///'' then Some s else None),
       relativeURL = (\<lambda>s b. Some (rev (dropWhile (\<lambda>c. c \<noteq> CHR ''/'') (rev b)) @ s)),
       normalizeSchemaUrl = (\<lambda>s. s),
       uriParse = (\<lambda>s. \<lparr> scheme = takeWhile (\<lambda>c. c \<noteq> CHR '':'') s, uri_text = s \<rparr>),
       fetch = (\<lambda>url. Inl (Rejected ''TypeError: fetch failed'')),
       openTextDocument = sample_open,
       latency = (\<lambda>url. if url = ''file:///w/slow.xml'' then 9 else 0) \<rparr>"

definition top_uri :: "uri option" where
  "top_uri = Some (file_uri ''top.xml'')"

subsection \<open>Notions the properties are stated with\<close>

fun event_node :: "event \<Rightarrow> tag" where
  "event_node (OpenTag node p l c) = node"
| "event_node (CloseTag node p) = node"

text \<open>The open tags of inclusion elements among the events of a run: the directives
  the resolver meets, in document order.\<close>

definition directives :: "host \<Rightarrow> event list \<Rightarrow> event list" where
  "directives h evs =
     filter (\<lambda>ev. case ev of OpenTag node p l c \<Rightarrow> isInclude h node | CloseTag node p \<Rightarrow> False) evs"

definition depthAdvisory :: effect where
  "depthAdvisory = Advisory ''Maximum XInclude depth reached, skipping further includes.''"

text \<open>An effect that dereferences an href.\<close>

fun is_request :: "effect \<Rightarrow> bool" where
  "is_request (Advisory m) = False"
| "is_request (FetchRequest url) = True"
| "is_request (OpenRequest u) = True"

text \<open>The deferred fragment the handler creates for a directive with the given href
  attribute (lines 309-313).\<close>

definition deferredOf :: "host \<Rightarrow> uri option \<Rightarrow> tag \<Rightarrow> attr \<Rightarrow> nat \<Rightarrow> nat \<Rightarrow> deferred" where
  "deferredOf h baseUri node hrefAttr line column =
     \<lparr> d_hrefURL = resolveXIncludeHref h (attr_value hrefAttr) baseUri,
       d_includeUri = uriParse h (resolveXIncludeHref h (attr_value hrefAttr) baseUri),
       d_xpointer = map_option attr_value (map_of (attributes node) ''xpointer''),
       d_line = line, d_col = column \<rparr>"

definition requestOf :: "deferred \<Rightarrow> effect" where
  "requestOf d =
     (if scheme (d_includeUri d) = ''http'' \<or> scheme (d_includeUri d) = ''https''
      then FetchRequest (d_hrefURL d) else OpenRequest (d_includeUri d))"

definition parseModeOf :: "tag \<Rightarrow> string" where
  "parseModeOf node = (case map_of (attributes node) ''parse'' of Some a \<Rightarrow> attr_value a | None \<Rightarrow> ''xml'')"

text \<open>
  A chain of nested directives. \<open>chain h depth base src n wrap inner ibase\<close> says that
  the well-formed document \<open>src\<close>, resolved at \<open>depth\<close> against \<open>base\<close>, holds
  one directive, self-closing and with an href, whose target holds one such directive in
  turn, and so on \<open>n\<close> times, down to the document \<open>inner\<close> with base \<open>ibase\<close>;
  \<open>wrap\<close> puts what \<open>inner\<close> resolves to into the directives' places, with the
  markers of every level around it.
\<close>

inductive chain ::
  "host \<Rightarrow> nat \<Rightarrow> uri option \<Rightarrow> string \<Rightarrow> nat \<Rightarrow> (string \<Rightarrow> string) \<Rightarrow> string \<Rightarrow> uri option \<Rightarrow> bool"
  for h :: host where
  chain_end: "chain h depth base src 0 (\<lambda>out. out) src base"
| chain_link:
  "events (parser h src) = pre @ [OpenTag node p l c, CloseTag node p] @ post \<Longrightarrow>
   failure (parser h src) = None \<Longrightarrow>
   list_all (\<lambda>ev. \<not> isInclude h (event_node ev)) (pre @ post) \<Longrightarrow>
   isInclude h node \<Longrightarrow>
   isSelfClosing node \<Longrightarrow>
   parseModeOf node = ''xml'' \<Longrightarrow>
   map_of (attributes node) ''href'' = Some a \<Longrightarrow>
   tagStartBefore src p = Some ts \<Longrightarrow>
   includedText h (deferredOf h base node a l c) = Inr (src', base') \<Longrightarrow>
   chain h (depth + 1) (Some base') src' n wrap inner ibase \<Longrightarrow>
   chain h depth base src (Suc n)
     (\<lambda>out. substring src 0 ts @ makePI depth (deferredOf h base node a l c) (wrap out) @ drop p src)
     inner ibase"

text \<open>The sample workspace with inclusion support turned off.\<close>

definition disabled :: host where
  "disabled = sample\<lparr> xincludeSupport := False \<rparr>"

text \<open>A resolver state whose parts are all literal and whose effects hold no
  request.\<close>

definition quiet :: "resolver \<Rightarrow> bool" where
  "quiet st =
     (list_all (\<lambda>p. case p of Literal s \<Rightarrow> True | Deferred d \<Rightarrow> False) (outputParts st)
      \<and> list_all (\<lambda>e. \<not> is_request e) (effects st))"

text \<open>The sample workspace with the depth limit set to 2.\<close>

definition shallow :: host where
  "shallow = sample\<lparr> xincludeDepth := Some 2 \<rparr>"

text \<open>The directive of a sample document that consists of one directive.\<close>

definition include_of :: "string \<Rightarrow> tag" where
  "include_of name = xi_tag ''include'' [xmlns_xi_attr, plain_attr ''href'' name] True"

text \<open>The number of child elements, and the element reached from an element by
  1-based child indices; no index at all reaches the element itself.\<close>

definition nchildren :: "element \<Rightarrow> nat" where
  "nchildren e = length (children e)"

definition descend_from :: "element \<Rightarrow> nat list \<Rightarrow> element option" where
  "descend_from e ks = (if ks = [] then Some e else descend (children e) ks)"

text \<open>The variables of the selector between two events: \<open>childCounts\<close> holds, for
  every open element, the index of its child that is open (or was open last), and the
  number of children met so far for the innermost one.\<close>

definition balanced :: "selector \<Rightarrow> bool" where
  "balanced s =
     (childCounts s \<noteq> [] \<and> butlast (childCounts s) = elementPath s
      \<and> nesting s = length (elementPath s))"

text \<open>The selector's scan of a list of events.\<close>

definition select_scan ::
  "string \<Rightarrow> ElementScheme + string \<Rightarrow> event list \<Rightarrow> selector \<Rightarrow> error + selector" where
  "select_scan xmlSource sch evs s = dispatch (select_event xmlSource sch) evs s"

text \<open>What the claim about positional pointers promises when no span is produced: the
  available count of a step is the number of children of the element the steps before it
  reach (the document has one child, its root element).\<close>

definition available :: "element \<Rightarrow> nat list \<Rightarrow> nat \<Rightarrow> nat option" where
  "available root steps i = map_option nchildren (descend [root] (take i steps))"



text \<open>Stages of the scan for an anchored pointer: the anchor has not been met; the
  anchor has been met at the given path and the target has not; the given element has
  been taken as the target and its span is complete.\<close>

definition fresh :: "selector \<Rightarrow> bool" where
  "fresh s =
     (\<not> found s \<and> \<not> idAnchorFound s \<and> idAnchorPath s = None \<and> startPos s = None
      \<and> endPos s = None \<and> targetDepth s = None)"

definition seeking :: "nat list \<Rightarrow> selector \<Rightarrow> bool" where
  "seeking anchorPath s =
     (\<not> found s \<and> idAnchorFound s \<and> idAnchorPath s = Some anchorPath \<and> startPos s = None
      \<and> endPos s = None \<and> targetDepth s = None)"

definition selected :: "string \<Rightarrow> element \<Rightarrow> selector \<Rightarrow> bool" where
  "selected xmlSource x s =
     (found s \<and> targetDepth s = None
      \<and> tagStartBefore xmlSource (open_position x) \<noteq> None
      \<and> startPos s = tagStartBefore xmlSource (open_position x)
      \<and> endPos s = Some (if isSelfClosing (node_of x) then open_position x else close_position x))"

text \<open>The outcome of a scan in which the given element is taken as the target: the
  scan ends with its span, unless no \<open><\<close> is found before its open tag.\<close>

definition selects :: "string \<Rightarrow> element \<Rightarrow> error + selector \<Rightarrow> bool" where
  "selects xmlSource x r =
     (case tagStartBefore xmlSource (open_position x) of
        None \<Rightarrow> r = Inl NoTargetStart
      | Some a \<Rightarrow> (case r of Inl e \<Rightarrow> False | Inr s \<Rightarrow> selected xmlSource x s))"

text \<open>The target below an element whose path, relative to the anchor, is \<open>rel\<close>.\<close>

definition target_in :: "nat list \<Rightarrow> element \<Rightarrow> nat list \<Rightarrow> element option" where
  "target_in rel t steps = (if prefix rel steps then descend_from t (drop (length rel) steps) else None)"

text \<open>The target among the siblings \<open>ks\<close>, the children after the first \<open>j\<close> of an
  element whose path relative to the anchor is \<open>rel\<close>.\<close>

fun target_among :: "nat list \<Rightarrow> nat \<Rightarrow> element list \<Rightarrow> nat list \<Rightarrow> element option" where
  "target_among rel j [] steps = None"
| "target_among rel j (t # ts) steps =
     (case target_in (rel @ [j + 1]) t steps of
        Some x \<Rightarrow> Some x
      | None \<Rightarrow> target_among rel (j + 1) ts steps)"

text \<open>The bookkeeping every open tag does, before anything is decided.\<close>

definition opened :: "selector \<Rightarrow> selector" where
  "opened s = s\<lparr> nesting := nesting s + 1,
                 childCounts := butlast (childCounts s) @ [last (childCounts s) + 1, 0],
                 elementPath := elementPath s @ [last (childCounts s) + 1] \<rparr>"

text \<open>Two paths neither of which leads to the other.\<close>

definition apart :: "nat list \<Rightarrow> nat list \<Rightarrow> bool" where
  "apart a b = (\<not> prefix a b \<and> \<not> prefix b a)"

text \<open>The outcome of a scan below the anchor: the target, when there is one, is selected;
  otherwise the scan goes on seeking, and the count recorded for the anchor is as given.\<close>

definition sought ::
  "nat list \<Rightarrow> nat option \<Rightarrow> string \<Rightarrow> element option \<Rightarrow> error + selector \<Rightarrow> bool" where
  "sought anchorPath v xmlSource target r =
     (case target of
        Some x \<Rightarrow> selects xmlSource x r
      | None \<Rightarrow> (case r of Inl e \<Rightarrow> False
                 | Inr s \<Rightarrow> seeking anchorPath s \<and> idCounts s 0 = v))"

text \<open>The outcome of a scan that meets the anchor \<open>a\<close> at or below the given path: the
  element the steps reach from the anchor is selected; when they reach none, the scan ends
  seeking, with the number of children of the anchor recorded.\<close>

definition anchored ::
  "string \<Rightarrow> element \<Rightarrow> nat list \<Rightarrow> nat list \<Rightarrow> error + selector \<Rightarrow> bool" where
  "anchored xmlSource a steps path r =
     (case descend_from a steps of
        Some x \<Rightarrow> selects xmlSource x r
      | None \<Rightarrow>
          (case r of
             Inl e \<Rightarrow> False
           | Inr s \<Rightarrow>
               (case idAnchorPath s of
                  None \<Rightarrow> False
                | Some anchorPath \<Rightarrow>
                    seeking anchorPath s \<and> prefix path anchorPath
                    \<and> idCounts s 0 = Some (nchildren a))))"

section \<open>Properties\<close>

subsection \<open>Awaiting all fragments\<close>

text \<open>Whatever the order of completion, \<open>Promise.all\<close> yields the values in the
  order of the entries.\<close>

lemma fold_slots:
  "\<forall>i\<in>set order. i < length slots \<Longrightarrow>
   fold (\<lambda>i slots. slots[i := vals ! i]) order slots =
   map (\<lambda>i. if i \<in> set order then vals ! i else slots ! i) [0..<length slots]"
proof (induction order arbitrary: slots)
  case Nil
  then show ?case by (simp add: map_nth)
next
  case (Cons a order)
  have "fold (\<lambda>i slots. slots[i := vals ! i]) (a # order) slots =
        fold (\<lambda>i slots. slots[i := vals ! i]) order (slots[a := vals ! a])"
    by simp
  also have "\<dots> = map (\<lambda>i. if i \<in> set order then vals ! i else slots[a := vals ! a] ! i)
                      [0..<length (slots[a := vals ! a])]"
    using Cons.prems by (intro Cons.IH) simp
  also have "\<dots> = map (\<lambda>i. if i \<in> set (a # order) then vals ! i else slots ! i) [0..<length slots]"
    by (auto simp: nth_list_update)
  finally show ?case .
qed

lemma promiseAll_all_settled:
  assumes "set order = {0..<length vals}"
  shows "promiseAll order vals = vals"
proof -
  have "promiseAll order vals =
        map (\<lambda>i. if i \<in> set order then vals ! i else replicate (length vals) [] ! i) [0..<length vals]"
    unfolding promiseAll_def using assms fold_slots [of order "replicate (length vals) []" vals]
    by simp
  also have "\<dots> = map (\<lambda>i. vals ! i) [0..<length vals]"
    using assms by (intro map_cong) auto
  finally show ?thesis by (simp add: map_nth)
qed

lemma promiseAll_completionOrder:
  "length vals = length parts \<Longrightarrow> promiseAll (completionOrder lat parts) vals = vals"
  by (rule promiseAll_all_settled) (simp add: completionOrder_def)

lemma resolveXIncludes_unfold:
  "resolveXIncludes h xmlSource depth baseUri =
     (let run = parser h xmlSource;
          st = scan h xmlSource depth baseUri (events run);
          settled = map (settledPart h depth (final_position run)) (outputParts st);
          fx = effects st @ concat (map snd settled)
      in if failure run \<noteq> None \<and> (0 < depth \<or> \<not> foundXi st)
         then (Inr xmlSource, fx)
         else (Inr (concat (map fst settled) @ drop (lastPos st) xmlSource), fx))"
proof -
  have eq: "settledPart h depth position = (\<lambda>p. case p of
                           Literal s \<Rightarrow> (s, [])
                         | Deferred d \<Rightarrow>
                             (case includedText h d of
                                Inl e \<Rightarrow> (handleErr position d e, [])
                              | Inr (text, base) \<Rightarrow>
                                  (case resolveXIncludes h text (depth + 1) (Some base) of
                                     (Inr resolved, fx) \<Rightarrow> (makePI depth d resolved, fx)
                                   | (Inl e, fx) \<Rightarrow> (handleErr position d e, fx))))" for position
    by (rule ext) (simp add: settledPart_def)
  show ?thesis
    by (subst resolveXIncludes.simps)
       (simp only: Let_def eq [symmetric] promiseAll_completionOrder length_append length_map
                   list.size concat_append concat.simps append_Nil2)
qed

subsection \<open>The resolver, with its fragments awaited\<close>

lemma foldl_resolve_event_no_include:
  "\<forall>ev\<in>set evs. \<not> isInclude h (event_node ev) \<Longrightarrow>
   foldl (resolve_event h xmlSource depth baseUri) st evs = st"
proof (induction evs arbitrary: st)
  case Nil
  then show ?case by simp
next
  case (Cons ev evs)
  have "resolve_event h xmlSource depth baseUri st ev = st"
    using Cons.prems
    by (cases ev) (simp_all add: resolve_event_def resolve_opentag_def resolve_closetag_def)
  with Cons show ?case by simp
qed

subsection \<open>Documents without directives\<close>

text \<open>
  C2. On a document in which the parser reports no inclusion element, be the document
  well-formed or not, \<open>resolveXIncludes\<close> settles with the input text, unchanged,
  and does nothing else; it does not reject.
\<close>

theorem no_directive_identity:
  assumes "\<forall>ev\<in>set (events (parser h xmlSource)). \<not> isInclude h (event_node ev)"
  shows "resolveXIncludes h xmlSource depth baseUri = (Inr xmlSource, [])"
proof -
  have "scan h xmlSource depth baseUri (events (parser h xmlSource)) = resolver_init"
    unfolding scan_def using assms by (rule foldl_resolve_event_no_include)
  then show ?thesis
    by (simp add: resolveXIncludes_unfold resolver_init_def Let_def)
qed

theorem no_directive_identity_witness:
  "resolveXIncludes sample doc_plain 0 top_uri = (Inr doc_plain, [])
   \<and> resolveXIncludes sample doc_bad 0 top_uri = (Inr doc_bad, [])
   \<and> failure (parser sample doc_plain) = None
   \<and> failure (parser sample doc_bad) = Some ''1:6: unclosed tag: t''"
proof -
  have plain: "\<forall>ev\<in>set (events (parser sample doc_plain)). \<not> isInclude sample (event_node ev)"
    by code_simp
  have bad: "\<forall>ev\<in>set (events (parser sample doc_bad)). \<not> isInclude sample (event_node ev)"
    by code_simp
  have "failure (parser sample doc_plain) = None" by code_simp
  moreover have "failure (parser sample doc_bad) = Some ''1:6: unclosed tag: t''" by code_simp
  ultimately show ?thesis
    using no_directive_identity [OF plain] no_directive_identity [OF bad] by simp
qed

subsection \<open>A scan that fails at the top level\<close>

text \<open>The promise \<open>resolveXIncludes\<close> returns is never rejected.\<close>

lemma resolveXIncludes_never_rejects:
  "\<exists>out. fst (resolveXIncludes h xmlSource depth baseUri) = Inr out"
  by (simp add: resolveXIncludes_unfold Let_def)




subsection \<open>The marker of a failed fragment\<close>

text \<open>A fragment whose chain is rejected before the recursive call settles with one
  error marker and no leave marker; the marker's \<open>parent-start\<close> is the position
  \<open>handleErr\<close> is given, its \<open>parent-col\<close> the column of the directive.\<close>

lemma failed_fragment_marker:
  "includedText h d = Inl e \<Longrightarrow>
   settledPart h depth position (Deferred d) = (errorPI (render e) position (d_col d), [])"
  by (simp add: settledPart_def handleErr_def)

text \<open>
  C3. The directive of \<open>doc_missing\<close> names a file that cannot be opened. The parser
  is at position 78 when it reports the directive, and at position 0 when the rejection is
  handled, after the scan: the marker carries \<open>parent-start="0"\<close>, a position
  observed later, beside the column 78 captured at the directive.
\<close>

theorem error_marker_carries_final_position:
  \<open>events (parser sample doc_missing) ! 1 =
       OpenTag (xi_tag ''include'' [plain_attr ''href'' ''missing.xml''] True) 78 1 78
   \<and> final_position (parser sample doc_missing) = 0
   \<and> fst (resolveXIncludes sample doc_missing 0 top_uri) =
       Inr ''<r xmlns:xi="http://www.w3.org/2001/XInclude"><?xml-xi-error err="CodeExpectedError: cannot open file:///w/missing.xml" parent-start="0" parent-col="78"?><t/></r>''\<close>
  by code_simp

subsection \<open>Stripping the XML declaration\<close>

text \<open>
  C4. The acquired text starts with a processing instruction that is no XML declaration;
  the replacement removes it all the same, since its target starts with \<open>xml\<close>.
\<close>

theorem stylesheet_instruction_is_stripped:
  \<open>stripDeclaration ''<?xml-stylesheet href="s.xsl"?><doc/>'' = ''<doc/>''\<close>
  by code_simp

subsection \<open>The order of the output\<close>

text \<open>The latencies have no part in the scan, nor in what a fragment settles with.\<close>

lemma iriToUri_latency [simp]:
  "iriToUri (h\<lparr>latency := lat\<rparr>) = iriToUri h"
  by (intro ext) (simp add: iriToUri_def cong: if_cong)

lemma resolveXIncludeHref_latency [simp]:
  "resolveXIncludeHref (h\<lparr>latency := lat\<rparr>) = resolveXIncludeHref h"
  by (intro ext) (simp add: resolveXIncludeHref_def Let_def split: option.splits)

lemma isInclude_latency [simp]:
  "isInclude (h\<lparr>latency := lat\<rparr>) = isInclude h"
  by (intro ext) (simp add: isInclude_def)

lemma depthLimit_latency [simp]:
  "depthLimit (h\<lparr>latency := lat\<rparr>) = depthLimit h"
  by (simp add: depthLimit_def)

lemma resolve_opentag_latency [simp]:
  "resolve_opentag (h\<lparr>latency := lat\<rparr>) = resolve_opentag h"
  by (intro ext) (simp add: resolve_opentag_def Let_def split: option.splits)

lemma scan_latency [simp]:
  "scan (h\<lparr>latency := lat\<rparr>) = scan h"
  by (intro ext) (simp add: scan_def resolve_event_def [abs_def] resolve_closetag_def)

lemma narrowed_latency [simp]:
  "narrowed (h\<lparr>latency := lat\<rparr>) = narrowed h"
  by (intro ext) (simp add: narrowed_def Let_def split: option.splits)

lemma includedText_latency [simp]:
  "includedText (h\<lparr>latency := lat\<rparr>) = includedText h"
  by (intro ext) (simp add: includedText_def split: sum.splits)

lemma resolveXIncludes_latency:
  "resolveXIncludes (h\<lparr>latency := lat\<rparr>) xmlSource depth baseUri =
   resolveXIncludes h xmlSource depth baseUri"
proof (induction "nat (depthLimit h - int depth)" arbitrary: xmlSource depth baseUri rule: less_induct)
  case less
  let ?st = "scan h xmlSource depth baseUri (events (parser h xmlSource))"
  have "settledPart (h\<lparr>latency := lat\<rparr>) depth position p = settledPart h depth position p"
    if "p \<in> set (outputParts ?st)" for p position
  proof (cases p)
    case (Literal s)
    then show ?thesis by (simp add: settledPart_def)
  next
    case (Deferred d)
    with that have "int depth < depthLimit h"
      by (auto dest: scan_deferred_below_limit)
    then have "nat (depthLimit h - int (depth + 1)) < nat (depthLimit h - int depth)"
      by simp
    from less [OF this]
    have "resolveXIncludes (h\<lparr>latency := lat\<rparr>) t (depth + 1) b =
          resolveXIncludes h t (depth + 1) b" for t b .
    then show ?thesis
      by (simp only: settledPart_def Deferred includedText_latency)
  qed
  then have "map (settledPart (h\<lparr>latency := lat\<rparr>) depth position) (outputParts ?st) =
             map (settledPart h depth position) (outputParts ?st)" for position
    by simp
  note m = this
  have p: "parser (h\<lparr>latency := lat\<rparr>) = parser h"
    by simp
  show ?case
    by (subst resolveXIncludes_unfold [of "h\<lparr>latency := lat\<rparr>"],
        subst resolveXIncludes_unfold [of h])
       (simp only: Let_def scan_latency p m)
qed

text \<open>
  C9. Whatever the latencies of the resources, and so whatever the order in which the
  deferred fragments complete, the output is the concatenation of the entries of
  \<open>outputParts\<close> in the order the scan pushed them, each fragment at its place,
  followed by the text after the literal cursor.
\<close>

theorem output_in_document_order:
  "fst (resolveXIncludes (h\<lparr>latency := lat\<rparr>) xmlSource depth baseUri) =
     (let run = parser h xmlSource;
          st = scan h xmlSource depth baseUri (events run)
      in if failure run \<noteq> None \<and> (0 < depth \<or> \<not> foundXi st) then Inr xmlSource
         else Inr (concat (map (\<lambda>p. fst (settledPart h depth (final_position run) p))
                             (outputParts st))
                   @ drop (lastPos st) xmlSource))"
  unfolding resolveXIncludes_latency
  by (auto simp: resolveXIncludes_unfold Let_def comp_def)

theorem output_in_document_order_witness:
  \<open>completionOrder (latency sample)
      (outputParts (scan sample doc_two 0 top_uri (events run_two)) @ [Literal ''</r>''])
     = [0, 2, 4, 3, 1]
   \<and> completionOrder (\<lambda>url. if url = ''file:///w/leaf.xml'' then 7 else 0)
      (outputParts (scan sample doc_two 0 top_uri (events run_two)) @ [Literal ''</r>''])
     = [0, 2, 4, 1, 3]
   \<and> fst (resolveXIncludes (sample\<lparr>latency := (\<lambda>url. if url = ''file:///w/leaf.xml'' then 7 else 0)\<rparr>)
            doc_two 0 top_uri) =
       Inr ''<r xmlns:xi="http://www.w3.org/2001/XInclude"><?xml-xi-map-enter uri="file:///w/slow.xml" parent-line="1" parent-col="75"?><slow/><?xml-xi-map-leave?>-<?xml-xi-map-enter uri="file:///w/leaf.xml" parent-line="1" parent-col="105"?><leaf/><?xml-xi-map-leave?></r>''
   \<and> fst (resolveXIncludes sample doc_two 0 top_uri) =
       Inr ''<r xmlns:xi="http://www.w3.org/2001/XInclude"><?xml-xi-map-enter uri="file:///w/slow.xml" parent-line="1" parent-col="75"?><slow/><?xml-xi-map-leave?>-<?xml-xi-map-enter uri="file:///w/leaf.xml" parent-line="1" parent-col="105"?><leaf/><?xml-xi-map-leave?></r>''\<close>
proof -
  have a: \<open>(let run = parser sample doc_two;
          st = scan sample doc_two 0 top_uri (events run)
      in if failure run \<noteq> None \<and> (0 < (0::nat) \<or> \<not> foundXi st) then Inr doc_two
         else Inr (concat (map (\<lambda>p. fst (settledPart sample 0 (final_position run) p))
                             (outputParts st))
                   @ drop (lastPos st) doc_two)) = (Inr ''<r xmlns:xi="http://www.w3.org/2001/XInclude"><?xml-xi-map-enter uri="file:///w/slow.xml" parent-line="1" parent-col="75"?><slow/><?xml-xi-map-leave?>-<?xml-xi-map-enter uri="file:///w/leaf.xml" parent-line="1" parent-col="105"?><leaf/><?xml-xi-map-leave?></r>'' :: error + string)\<close>
    by code_simp
  have b: \<open>completionOrder (latency sample)
      (outputParts (scan sample doc_two 0 top_uri (events run_two)) @ [Literal ''</r>''])
     = [0, 2, 4, 3, 1]\<close> by code_simp
  have c: \<open>completionOrder (\<lambda>url. if url = ''file:///w/leaf.xml'' then 7 else 0)
      (outputParts (scan sample doc_two 0 top_uri (events run_two)) @ [Literal ''</r>''])
     = [0, 2, 4, 1, 3]\<close> by code_simp
  have d: "sample = sample\<lparr>latency := latency sample\<rparr>" by simp
  have t1: "fst (resolveXIncludes (sample\<lparr>latency := lat\<rparr>) doc_two 0 top_uri) = Inr out1"
    if "(let run = parser sample doc_two;
          st = scan sample doc_two 0 top_uri (events run)
      in if failure run \<noteq> None \<and> (0 < (0::nat) \<or> \<not> foundXi st) then Inr doc_two
         else Inr (concat (map (\<lambda>p. fst (settledPart sample 0 (final_position run) p))
                             (outputParts st))
                   @ drop (lastPos st) doc_two)) = (Inr out1 :: error + string)" for lat out1
    using output_in_document_order [where h = sample and lat = lat and xmlSource = doc_two
        and depth = 0 and baseUri = top_uri] that by (rule trans)
  from t1 [OF a] have t2: "fst (resolveXIncludes sample doc_two 0 top_uri) = Inr out1"
    if "fst (resolveXIncludes (sample\<lparr>latency := latency sample\<rparr>) doc_two 0 top_uri) = Inr out1"
    for out1 using that by simp
  show ?thesis
    by (intro conjI b c t1 [OF a] t2 [OF t1 [OF a]])
qed

subsection \<open>Steps of the scan\<close>

lemma scan_append:
  "scan h xmlSource depth baseUri (xs @ ys) =
   foldl (resolve_event h xmlSource depth baseUri) (scan h xmlSource depth baseUri xs) ys"
  by (simp add: scan_def)

lemma foldl_resolve_event_others:
  "list_all (\<lambda>ev. \<not> isInclude h (event_node ev)) evs \<Longrightarrow>
   foldl (resolve_event h xmlSource depth baseUri) st evs = st"
  by (rule foldl_resolve_event_no_include) (simp add: list_all_iff)

lemma resolve_event_open:
  "resolve_event h xmlSource depth baseUri st (OpenTag node p l c) =
   resolve_opentag h xmlSource depth baseUri node p l c st"
  by (simp add: resolve_event_def)

lemma resolve_event_close:
  "resolve_event h xmlSource depth baseUri st (CloseTag node p) =
   resolve_closetag h depth node p st"
  by (simp add: resolve_event_def)

lemma resolve_opentag_other:
  "\<not> isInclude h node \<Longrightarrow>
   resolve_opentag h xmlSource depth baseUri node position line column st = st"
  by (simp add: resolve_opentag_def)

lemma resolve_opentag_beyond_limit:
  "depthLimit h \<le> int depth \<Longrightarrow> isInclude h node \<Longrightarrow>
   resolve_opentag h xmlSource depth baseUri node position line column st =
     st\<lparr> foundXi := True, effects := effects st @ [depthAdvisory] \<rparr>"
  by (simp add: resolve_opentag_def depthAdvisory_def Let_def)

lemma resolve_opentag_disabled:
  "int depth < depthLimit h \<Longrightarrow> \<not> xincludeSupport h \<Longrightarrow> isInclude h node \<Longrightarrow>
   tagStartBefore xmlSource position = Some ts \<Longrightarrow>
   resolve_opentag h xmlSource depth baseUri node position line column st =
     st\<lparr> foundXi := True,
         outputParts := outputParts st @ [Literal (substring xmlSource (lastPos st) ts),
                                          Literal (warningPI line column)],
         lastPos := (if isSelfClosing node then position else lastPos st) \<rparr>"
  by (simp add: resolve_opentag_def Let_def)

lemma resolve_opentag_no_href:
  "int depth < depthLimit h \<Longrightarrow> xincludeSupport h \<Longrightarrow> isInclude h node \<Longrightarrow>
   parseModeOf node = ''xml'' \<Longrightarrow> map_of (attributes node) ''href'' = None \<Longrightarrow>
   tagStartBefore xmlSource position = Some ts \<Longrightarrow>
   resolve_opentag h xmlSource depth baseUri node position line column st =
     st\<lparr> foundXi := True,
         outputParts := outputParts st @ [Literal (substring xmlSource (lastPos st) ts)],
         lastPos := (if isSelfClosing node then position else lastPos st) \<rparr>"
  by (simp add: resolve_opentag_def parseModeOf_def Let_def)

lemma resolve_opentag_href:
  "int depth < depthLimit h \<Longrightarrow> xincludeSupport h \<Longrightarrow> isInclude h node \<Longrightarrow>
   parseModeOf node = ''xml'' \<Longrightarrow> map_of (attributes node) ''href'' = Some a \<Longrightarrow>
   tagStartBefore xmlSource position = Some ts \<Longrightarrow>
   resolve_opentag h xmlSource depth baseUri node position line column st =
     st\<lparr> foundXi := True,
         outputParts := outputParts st @ [Literal (substring xmlSource (lastPos st) ts),
                                          Deferred (deferredOf h baseUri node a line column)],
         lastPos := (if isSelfClosing node then position else lastPos st),
         effects := effects st @ [requestOf (deferredOf h baseUri node a line column)] \<rparr>"
  by (simp add: resolve_opentag_def parseModeOf_def deferredOf_def requestOf_def Let_def)


subsection \<open>The depth limit\<close>

lemma foldl_beyond_limit:
  assumes "depthLimit h \<le> int depth" and "0 < depth"
  shows "foldl (resolve_event h xmlSource depth baseUri) st evs =
           st\<lparr> foundXi := (foundXi st \<or> directives h evs \<noteq> []),
               effects := effects st @ replicate (length (directives h evs)) depthAdvisory \<rparr>"
proof (induction evs arbitrary: st)
  case Nil
  then show ?case by (simp add: directives_def)
next
  case (Cons ev evs)
  show ?case
  proof (cases ev)
    case (OpenTag node p l c)
    show ?thesis
    proof (cases "isInclude h node")
      case True
      with assms show ?thesis
        by (simp add: OpenTag Cons.IH resolve_event_open resolve_opentag_beyond_limit
                      directives_def replicate_app_Cons_same)
    next
      case False
      then show ?thesis
        by (simp add: OpenTag Cons.IH resolve_event_open resolve_opentag_other directives_def)
    qed
  next
    case (CloseTag node p)
    with assms show ?thesis
      by (simp add: Cons.IH resolve_event_close resolve_closetag_def directives_def)
  qed
qed

lemma beyond_limit_untouched:
  assumes "depthLimit h \<le> int depth" and "0 < depthLimit h"
  shows "resolveXIncludes h xmlSource depth baseUri =
           (Inr xmlSource,
            replicate (length (directives h (events (parser h xmlSource)))) depthAdvisory)"
proof -
  from assms have "0 < depth" by simp
  with assms(1) show ?thesis
    by (simp add: resolveXIncludes_unfold scan_def foldl_beyond_limit resolver_init_def Let_def)
qed

lemma scan_single_directive:
  assumes "list_all (\<lambda>ev. \<not> isInclude h (event_node ev)) (pre @ post)"
    and "int depth < depthLimit h" and "xincludeSupport h" and "isInclude h node"
    and "isSelfClosing node" and "parseModeOf node = ''xml''"
    and "map_of (attributes node) ''href'' = Some a"
    and "tagStartBefore xmlSource p = Some ts"
  shows "scan h xmlSource depth baseUri (pre @ [OpenTag node p l c, CloseTag node p] @ post) =
           \<lparr> outputParts = [Literal (substring xmlSource 0 ts),
                             Deferred (deferredOf h baseUri node a l c)],
             lastPos = p, foundXi = True,
             effects = [requestOf (deferredOf h baseUri node a l c)] \<rparr>"
proof -
  from assms(1) have pre: "list_all (\<lambda>ev. \<not> isInclude h (event_node ev)) pre"
    and post: "list_all (\<lambda>ev. \<not> isInclude h (event_node ev)) post"
    by simp_all
  have "scan h xmlSource depth baseUri pre = resolver_init"
    by (simp add: scan_def foldl_resolve_event_others [OF pre])
  then show ?thesis
    using assms(2-8)
    by (simp add: scan_append foldl_resolve_event_others [OF post] resolve_event_open
                  resolve_event_close resolve_opentag_href resolve_closetag_def
                  resolver_init_def)
qed

lemma settledPart_Literal:
  "settledPart h depth position (Literal s) = (s, [])"
  by (simp add: settledPart_def)

lemma chain_expands:
  assumes "chain h depth base src n wrap inner ibase"
    and "int depth + int n \<le> depthLimit h" and "xincludeSupport h"
    and "resolveXIncludes h inner (depth + n) ibase = (Inr out, fx)"
  shows "\<exists>reqs. length reqs = n \<and> list_all is_request reqs
           \<and> resolveXIncludes h src depth base = (Inr (wrap out), reqs @ fx)"
  using assms
proof (induction arbitrary: out fx rule: chain.induct)
  case (chain_end depth base src)
  then show ?case by simp
next
  case (chain_link src pre node p l c post a ts base src' base' depth n wrap inner ibase)
  let ?d = "deferredOf h base node a l c"
  have below: "int depth < depthLimit h"
    using chain_link.prems(1) by simp
  have "int (depth + 1) + int n \<le> depthLimit h"
    using chain_link.prems(1) by simp
  moreover have "resolveXIncludes h inner (depth + 1 + n) ibase = (Inr out, fx)"
    using chain_link.prems(3) by (simp add: add.commute add.left_commute)
  ultimately obtain reqs where reqs: "length reqs = n" "list_all is_request reqs"
    and nested: "resolveXIncludes h src' (depth + 1) (Some base') = (Inr (wrap out), reqs @ fx)"
    using chain_link.IH [of out fx] chain_link.prems(2) by blast
  have st: "scan h src depth base (events (parser h src)) =
              \<lparr> outputParts = [Literal (substring src 0 ts), Deferred ?d],
                lastPos = p, foundXi = True, effects = [requestOf ?d] \<rparr>"
    unfolding chain_link.hyps(1)
    using chain_link.hyps(3-8) below chain_link.prems(2)
    by (intro scan_single_directive) simp_all
  have part: "settledPart h depth position (Deferred ?d) =
              (makePI depth ?d (wrap out), reqs @ fx)" for position
    using nested by (simp add: settledPart_def chain_link.hyps(9))
  have "resolveXIncludes h src depth base =
          (Inr (substring src 0 ts @ makePI depth ?d (wrap out) @ drop p src),
           (requestOf ?d # reqs) @ fx)"
    by (simp add: resolveXIncludes_unfold st chain_link.hyps(2) part settledPart_Literal Let_def)
  moreover have "is_request (requestOf ?d)"
    by (simp add: requestOf_def)
  ultimately show ?case
    using reqs by (intro exI [of _ "requestOf ?d # reqs"]) simp
qed


text \<open>
  C7. At a depth at or beyond the configured limit (a positive number, 50 when the setting
  is unset or 0), the call initiates no fetch, no document open and no recursive call,
  shows one advisory per directive, and returns the text with every directive in it
  untouched. Hence, for a chain of documents nested through \<open>n\<close> directives with
  \<open>n\<close> the limit, resolved from depth 0: all \<open>n\<close> directives are expanded, each
  with one request, and the innermost document is put in as it is, with one advisory for
  each directive it holds. When it holds none, the chain of exactly \<open>n\<close> directives is
  fully expanded with no advisory; when it holds one, which makes a chain of \<open>n + 1\<close>,
  that directive's literal text is left in the output with exactly one advisory.
\<close>

theorem depth_limit_leaves_directives:
  "(depthLimit h \<le> int depth \<and> 0 < depthLimit h \<longrightarrow>
      resolveXIncludes h xmlSource depth baseUri =
        (Inr xmlSource,
         replicate (length (directives h (events (parser h xmlSource)))) depthAdvisory))
   \<and> (chain h 0 baseUri xmlSource n wrap inner ibase \<and> int n = depthLimit h
        \<and> xincludeSupport h \<longrightarrow>
      (\<exists>reqs. length reqs = n \<and> list_all is_request reqs \<and>
         resolveXIncludes h xmlSource 0 baseUri =
           (Inr (wrap inner),
            reqs @ replicate (length (directives h (events (parser h inner)))) depthAdvisory)))"
proof (intro conjI impI)
  assume "depthLimit h \<le> int depth \<and> 0 < depthLimit h"
  then show "resolveXIncludes h xmlSource depth baseUri =
        (Inr xmlSource,
         replicate (length (directives h (events (parser h xmlSource)))) depthAdvisory)"
    by (simp add: beyond_limit_untouched)
next
  assume a: "chain h 0 baseUri xmlSource n wrap inner ibase \<and> int n = depthLimit h
        \<and> xincludeSupport h"
  then have "depthLimit h \<le> int (0 + n)" and "0 < depthLimit h \<or> n = 0"
    by auto
  have inner: "resolveXIncludes h inner (0 + n) ibase =
          (Inr inner, replicate (length (directives h (events (parser h inner)))) depthAdvisory)"
  proof (cases n)
    case 0
    with a have "depthLimit h = 0" by simp
    then show ?thesis
      by (simp add: depthLimit_def split: option.splits if_splits)
  next
    case (Suc m)
    with a have "depthLimit h \<le> int n" and "0 < depthLimit h" by simp_all
    then show ?thesis
      by (simp add: beyond_limit_untouched)
  qed
  from a have "int 0 + int n \<le> depthLimit h" by simp
  from chain_expands [OF _ this _ inner] a
  show "\<exists>reqs. length reqs = n \<and> list_all is_request reqs \<and>
         resolveXIncludes h xmlSource 0 baseUri =
           (Inr (wrap inner),
            reqs @ replicate (length (directives h (events (parser h inner)))) depthAdvisory)"
    by blast
qed

text \<open>Two chains of the sample workspace under the limit 2: from \<open>doc_a0\<close> through
  two directives to \<open>doc_leaf\<close>, and from \<open>doc_b0\<close> through two directives to
  \<open>doc_a1\<close>, which holds a third.\<close>

lemma chain_a1:
  "chain shallow 1 (Some (file_uri ''a1.xml'')) doc_a1 (Suc 0)
     (\<lambda>out. substring doc_a1 0 0
             @ makePI 1 (deferredOf shallow (Some (file_uri ''a1.xml'')) (include_of ''leaf.xml'')
                           (snd (plain_attr ''href'' ''leaf.xml'')) 1 72) out
             @ drop 72 doc_a1)
     doc_leaf (Some (file_uri ''leaf.xml''))"
  apply (rule chain_link [where pre = "[]" and post = "[]" and wrap = "\<lambda>out. out"
           and src' = doc_leaf and base' = "file_uri ''leaf.xml''"])
           apply code_simp
          apply code_simp
         apply code_simp
        apply code_simp
       apply code_simp
      apply code_simp
     apply code_simp
    apply code_simp
   apply code_simp
  apply (rule chain_end)
  done

lemma chain_a0:
  "chain shallow 0 top_uri doc_a0 (Suc (Suc 0))
     (\<lambda>out. substring doc_a0 0 0
             @ makePI 0 (deferredOf shallow top_uri (include_of ''a1.xml'')
                           (snd (plain_attr ''href'' ''a1.xml'')) 1 70)
                 (substring doc_a1 0 0
                  @ makePI 1 (deferredOf shallow (Some (file_uri ''a1.xml'')) (include_of ''leaf.xml'')
                                (snd (plain_attr ''href'' ''leaf.xml'')) 1 72) out
                  @ drop 72 doc_a1)
             @ drop 70 doc_a0)
     doc_leaf (Some (file_uri ''leaf.xml''))"
  apply (rule chain_link [where pre = "[]" and post = "[]"
           and src' = doc_a1 and base' = "file_uri ''a1.xml''"
           and wrap = "\<lambda>out. substring doc_a1 0 0
             @ makePI 1 (deferredOf shallow (Some (file_uri ''a1.xml'')) (include_of ''leaf.xml'')
                           (snd (plain_attr ''href'' ''leaf.xml'')) 1 72) out
             @ drop 72 doc_a1"])
           apply code_simp
          apply code_simp
         apply code_simp
        apply code_simp
       apply code_simp
      apply code_simp
     apply code_simp
    apply code_simp
   apply code_simp
  apply (simp only: add_0 chain_a1)
  done

lemma chain_b0:
  "chain shallow 0 top_uri doc_b0 (Suc (Suc 0))
     (\<lambda>out. substring doc_b0 0 0
             @ makePI 0 (deferredOf shallow top_uri (include_of ''a0.xml'')
                           (snd (plain_attr ''href'' ''a0.xml'')) 1 70)
                 (substring doc_a0 0 0
                  @ makePI 1 (deferredOf shallow (Some (file_uri ''a0.xml'')) (include_of ''a1.xml'')
                                (snd (plain_attr ''href'' ''a1.xml'')) 1 70) out
                  @ drop 70 doc_a0)
             @ drop 70 doc_b0)
     doc_a1 (Some (file_uri ''a1.xml''))"
  apply (rule chain_link [where pre = "[]" and post = "[]"
           and src' = doc_a0 and base' = "file_uri ''a0.xml''"
           and wrap = "\<lambda>out. substring doc_a0 0 0
             @ makePI 1 (deferredOf shallow (Some (file_uri ''a0.xml'')) (include_of ''a1.xml'')
                           (snd (plain_attr ''href'' ''a1.xml'')) 1 70) out
             @ drop 70 doc_a0"])
           apply code_simp
          apply code_simp
         apply code_simp
        apply code_simp
       apply code_simp
      apply code_simp
     apply code_simp
    apply code_simp
   apply code_simp
  apply (simp only: add_0)
  apply (rule chain_link [where pre = "[]" and post = "[]" and wrap = "\<lambda>out. out"
           and src' = doc_a1 and base' = "file_uri ''a1.xml''"])
           apply code_simp
          apply code_simp
         apply code_simp
        apply code_simp
       apply code_simp
      apply code_simp
     apply code_simp
    apply code_simp
   apply code_simp
  apply (rule chain_end)
  done

theorem depth_limit_leaves_directives_witness:
  \<open>resolveXIncludes shallow doc_a1 2 (Some (file_uri ''a1.xml'')) = (Inr doc_a1, [depthAdvisory])
   \<and> (\<exists>reqs. length reqs = 2 \<and> list_all is_request reqs \<and>
        resolveXIncludes shallow doc_a0 0 top_uri =
          (Inr ''<?xml-xi-map-enter uri="file:///w/a1.xml" parent-line="1" parent-col="70"?><?xml-xi-nested-enter uri="file:///w/leaf.xml"?><leaf/><?xml-xi-nested-leave?><?xml-xi-map-leave?>'',
           reqs))
   \<and> (\<exists>reqs. length reqs = 2 \<and> list_all is_request reqs \<and>
        resolveXIncludes shallow doc_b0 0 top_uri =
          (Inr ''<?xml-xi-map-enter uri="file:///w/a0.xml" parent-line="1" parent-col="70"?><?xml-xi-nested-enter uri="file:///w/a1.xml"?><xi:include xmlns:xi="http://www.w3.org/2001/XInclude" href="leaf.xml"/><?xml-xi-nested-leave?><?xml-xi-map-leave?>'',
           reqs @ [depthAdvisory]))\<close>
proof -
  have limit: "depthLimit shallow = 2" by code_simp
  have enabled: "xincludeSupport shallow" by code_simp
  have d1: "length (directives shallow (events (parser shallow doc_a1))) = 1" by code_simp
  have d0: "length (directives shallow (events (parser shallow doc_leaf))) = 0" by code_simp
  have wa: \<open>substring doc_a0 0 0
             @ makePI 0 (deferredOf shallow top_uri (include_of ''a1.xml'')
                           (snd (plain_attr ''href'' ''a1.xml'')) 1 70)
                 (substring doc_a1 0 0
                  @ makePI 1 (deferredOf shallow (Some (file_uri ''a1.xml'')) (include_of ''leaf.xml'')
                                (snd (plain_attr ''href'' ''leaf.xml'')) 1 72) doc_leaf
                  @ drop 72 doc_a1)
             @ drop 70 doc_a0
           = ''<?xml-xi-map-enter uri="file:///w/a1.xml" parent-line="1" parent-col="70"?><?xml-xi-nested-enter uri="file:///w/leaf.xml"?><leaf/><?xml-xi-nested-leave?><?xml-xi-map-leave?>''\<close>
    by code_simp
  have wb: \<open>substring doc_b0 0 0
             @ makePI 0 (deferredOf shallow top_uri (include_of ''a0.xml'')
                           (snd (plain_attr ''href'' ''a0.xml'')) 1 70)
                 (substring doc_a0 0 0
                  @ makePI 1 (deferredOf shallow (Some (file_uri ''a0.xml'')) (include_of ''a1.xml'')
                                (snd (plain_attr ''href'' ''a1.xml'')) 1 70) doc_a1
                  @ drop 70 doc_a0)
             @ drop 70 doc_b0
           = ''<?xml-xi-map-enter uri="file:///w/a0.xml" parent-line="1" parent-col="70"?><?xml-xi-nested-enter uri="file:///w/a1.xml"?><xi:include xmlns:xi="http://www.w3.org/2001/XInclude" href="leaf.xml"/><?xml-xi-nested-leave?><?xml-xi-map-leave?>''\<close>
    by code_simp
  note main = depth_limit_leaves_directives
  have one: "resolveXIncludes shallow doc_a1 2 (Some (file_uri ''a1.xml'')) = (Inr doc_a1, [depthAdvisory])"
    using main [where h = shallow and depth = 2 and xmlSource = doc_a1
                 and baseUri = "Some (file_uri ''a1.xml'')", THEN conjunct1]
    by (simp add: limit d1)
  have two: "\<exists>reqs. length reqs = 2 \<and> list_all is_request reqs \<and>
        resolveXIncludes shallow doc_a0 0 top_uri =
          (Inr ''<?xml-xi-map-enter uri=\"file:///w/a1.xml\" parent-line=\"1\" parent-col=\"70\"?><?xml-xi-nested-enter uri=\"file:///w/leaf.xml\"?><leaf/><?xml-xi-nested-leave?><?xml-xi-map-leave?>'',
           reqs)"
  proof -
    have "int (Suc (Suc 0)) = depthLimit shallow" by (simp add: limit)
    from main [THEN conjunct2, rule_format, OF conjI [OF chain_a0 conjI [OF this enabled]]]
    obtain reqs where "length reqs = Suc (Suc 0)" and "list_all is_request reqs"
      and "resolveXIncludes shallow doc_a0 0 top_uri =
           (Inr (substring doc_a0 0 0
             @ makePI 0 (deferredOf shallow top_uri (include_of ''a1.xml'')
                           (snd (plain_attr ''href'' ''a1.xml'')) 1 70)
                 (substring doc_a1 0 0
                  @ makePI 1 (deferredOf shallow (Some (file_uri ''a1.xml'')) (include_of ''leaf.xml'')
                                (snd (plain_attr ''href'' ''leaf.xml'')) 1 72) doc_leaf
                  @ drop 72 doc_a1)
             @ drop 70 doc_a0),
            reqs @ replicate (length (directives shallow (events (parser shallow doc_leaf)))) depthAdvisory)"
      by blast
    then show ?thesis
      unfolding wa d0 by (intro exI [of _ reqs]) simp
  qed
  have three: "\<exists>reqs. length reqs = 2 \<and> list_all is_request reqs \<and>
        resolveXIncludes shallow doc_b0 0 top_uri =
          (Inr ''<?xml-xi-map-enter uri=\"file:///w/a0.xml\" parent-line=\"1\" parent-col=\"70\"?><?xml-xi-nested-enter uri=\"file:///w/a1.xml\"?><xi:include xmlns:xi=\"http://www.w3.org/2001/XInclude\" href=\"leaf.xml\"/><?xml-xi-nested-leave?><?xml-xi-map-leave?>'',
           reqs @ [depthAdvisory])"
  proof -
    have "int (Suc (Suc 0)) = depthLimit shallow" by (simp add: limit)
    from main [THEN conjunct2, rule_format, OF conjI [OF chain_b0 conjI [OF this enabled]]]
    obtain reqs where "length reqs = Suc (Suc 0)" and "list_all is_request reqs"
      and "resolveXIncludes shallow doc_b0 0 top_uri =
           (Inr (substring doc_b0 0 0
             @ makePI 0 (deferredOf shallow top_uri (include_of ''a0.xml'')
                           (snd (plain_attr ''href'' ''a0.xml'')) 1 70)
                 (substring doc_a0 0 0
                  @ makePI 1 (deferredOf shallow (Some (file_uri ''a0.xml'')) (include_of ''a1.xml'')
                                (snd (plain_attr ''href'' ''a1.xml'')) 1 70) doc_a1
                  @ drop 70 doc_a0)
             @ drop 70 doc_b0),
            reqs @ replicate (length (directives shallow (events (parser shallow doc_a1)))) depthAdvisory)"
      by blast
    then show ?thesis
      unfolding wb d1 by (intro exI [of _ reqs]) simp
  qed
  from one two three show ?thesis by blast
qed

subsection \<open>Inclusion support turned off\<close>

lemma resolve_event_quiet:
  assumes "\<not> xincludeSupport h" and "quiet st"
  shows "quiet (resolve_event h xmlSource depth baseUri st ev)"
proof (cases ev)
  case (OpenTag node p l c)
  with assms show ?thesis
    by (auto simp: resolve_event_open resolve_opentag_def quiet_def Let_def
             split: option.splits)
next
  case (CloseTag node p)
  with assms show ?thesis
    by (simp add: resolve_event_close resolve_closetag_def quiet_def)
qed

lemma foldl_resolve_event_quiet:
  "\<not> xincludeSupport h \<Longrightarrow> quiet st \<Longrightarrow>
   quiet (foldl (resolve_event h xmlSource depth baseUri) st evs)"
  by (induction evs arbitrary: st) (simp_all add: resolve_event_quiet)

lemma quiet_settled:
  "list_all (\<lambda>p. case p of Literal s \<Rightarrow> True | Deferred d \<Rightarrow> False) parts \<Longrightarrow>
   concat (map (snd \<circ> settledPart h depth position) parts) = []"
  by (induction parts) (auto simp: settledPart_Literal split: part.splits)

lemma disabled_no_request:
  assumes "\<not> xincludeSupport h"
  shows "list_all (\<lambda>e. \<not> is_request e) (snd (resolveXIncludes h xmlSource depth baseUri))"
proof -
  have "quiet (scan h xmlSource depth baseUri (events (parser h xmlSource)))"
    unfolding scan_def using assms
    by (rule foldl_resolve_event_quiet) (simp add: quiet_def resolver_init_def)
  then show ?thesis
    by (simp add: resolveXIncludes_unfold Let_def quiet_def quiet_settled)
qed

text \<open>
  C8, as the code has it. With inclusion support turned off, no call at any depth
  dereferences an href: it initiates no fetch and no document open. A directive met below
  the depth limit, whose start is found, has the literal text up to its start flushed and
  then an enter/leave warning-marker pair with the reason and the directive's line and
  column pushed; the literal cursor moves past the directive at once only when it is
  self-closing. (At or beyond the limit the depth check comes first: the directive is left
  untouched, with an advisory.)
\<close>

theorem disabled_support_warns:
  assumes "\<not> xincludeSupport h"
  shows "list_all (\<lambda>e. \<not> is_request e) (snd (resolveXIncludes h xmlSource depth baseUri))
    \<and> (int depth' < depthLimit h \<and> isInclude h node
        \<and> tagStartBefore src position = Some ts \<longrightarrow>
          resolve_opentag h src depth' base node position line column st =
            st\<lparr> foundXi := True,
                outputParts := outputParts st @ [Literal (substring src (lastPos st) ts),
                                                 Literal (warningPI line column)],
                lastPos := (if isSelfClosing node then position else lastPos st) \<rparr>)"
  using assms by (simp add: disabled_no_request resolve_opentag_disabled)

text \<open>The claim as stated fails in two ways: at the depth limit the directive of
  \<open>doc_a1\<close> is left as it is, with no warning marker; and in \<open>doc_nested\<close>, at depth 0,
  the open tag of the outer directive stays in the output, after its warning marker.\<close>

theorem disabled_support_counterexample:
  \<open>resolveXIncludes disabled doc_a1 50 top_uri = (Inr doc_a1, [depthAdvisory])
   \<and> resolveXIncludes disabled doc_nested 0 top_uri =
       (Inr ''<r xmlns:xi="http://www.w3.org/2001/XInclude">A<?xml-xi-map-enter warning="XInclude resolution is turned off in settings." parent-line="1" parent-col="73"?><?xml-xi-map-leave?><r xmlns:xi="http://www.w3.org/2001/XInclude">A<xi:include href="a1.xml"><xi:fallback><?xml-xi-map-enter warning="XInclude resolution is turned off in settings." parent-line="1" parent-col="115"?><?xml-xi-map-leave?>B</r>'',
        [])\<close>
  by code_simp

theorem disabled_support_warns_witness:
  \<open>list_all (\<lambda>e. \<not> is_request e) (snd (resolveXIncludes disabled doc_nested 0 top_uri))
   \<and> resolve_opentag disabled doc_nested 0 top_uri
         (xi_tag ''include'' [plain_attr ''href'' ''a1.xml''] False) 73 1 73 resolver_init =
       \<lparr> outputParts = [Literal ''<r xmlns:xi="http://www.w3.org/2001/XInclude">A'',
                         Literal ''<?xml-xi-map-enter warning="XInclude resolution is turned off in settings." parent-line="1" parent-col="73"?><?xml-xi-map-leave?>''],
         lastPos = 0, foundXi = True, effects = [] \<rparr>\<close>
proof -
  have off: "\<not> xincludeSupport disabled" by code_simp
  have below: "int 0 < depthLimit disabled" by code_simp
  have inc: "isInclude disabled (xi_tag ''include'' [plain_attr ''href'' ''a1.xml''] False)"
    by code_simp
  have ts: "tagStartBefore doc_nested 73 = Some 47" by code_simp
  have val: \<open>resolver_init\<lparr> foundXi := True,
                outputParts := outputParts resolver_init
                   @ [Literal (substring doc_nested (lastPos resolver_init) 47),
                      Literal (warningPI 1 73)],
                lastPos := (if isSelfClosing (xi_tag ''include'' [plain_attr ''href'' ''a1.xml''] False)
                            then 73 else lastPos resolver_init) \<rparr> =
       \<lparr> outputParts = [Literal ''<r xmlns:xi="http://www.w3.org/2001/XInclude">A'',
                         Literal ''<?xml-xi-map-enter warning="XInclude resolution is turned off in settings." parent-line="1" parent-col="73"?><?xml-xi-map-leave?>''],
         lastPos = 0, foundXi = True, effects = [] \<rparr>\<close>
    by code_simp
  from disabled_support_warns [OF off, where xmlSource = doc_nested and depth = 0
      and baseUri = top_uri and depth' = 0 and node = "xi_tag ''include'' [plain_attr ''href'' ''a1.xml''] False"
      and src = doc_nested and position = 73 and ts = 47 and base = top_uri and line = 1
      and column = 73 and st = resolver_init]
  show ?thesis
    using below inc ts unfolding val [symmetric] by blast
qed

subsection \<open>A directive without href\<close>

lemma scan_lone_directive_without_href:
  assumes "list_all (\<lambda>ev. \<not> isInclude h (event_node ev)) (pre @ mid @ post)"
    and "int depth < depthLimit h" and "xincludeSupport h" and "isInclude h node"
    and "parseModeOf node = ''xml''" and "map_of (attributes node) ''href'' = None"
    and "tagStartBefore xmlSource p = Some ts"
  shows "scan h xmlSource depth baseUri (pre @ [OpenTag node p l c] @ mid @ [CloseTag node q] @ post) =
           \<lparr> outputParts = [Literal (substring xmlSource 0 ts)],
             lastPos = (if depth = 0 then q else if isSelfClosing node then p else 0),
             foundXi = True, effects = [] \<rparr>"
proof -
  from assms(1) have pre: "list_all (\<lambda>ev. \<not> isInclude h (event_node ev)) pre"
    and mid: "list_all (\<lambda>ev. \<not> isInclude h (event_node ev)) mid"
    and post: "list_all (\<lambda>ev. \<not> isInclude h (event_node ev)) post"
    by simp_all
  have "scan h xmlSource depth baseUri pre = resolver_init"
    by (simp add: scan_def foldl_resolve_event_others [OF pre])
  then show ?thesis
    using assms(2-7)
    by (simp add: scan_append foldl_resolve_event_others [OF mid]
                  foldl_resolve_event_others [OF post] resolve_event_open resolve_event_close
                  resolve_opentag_no_href resolve_closetag_def resolver_init_def)
qed

text \<open>
  C10, as the code has it. For a directive without href, met below the depth limit with
  inclusion support on and parse mode "xml", whose start is found, the resolver flushes
  the literal text up to the directive and pushes nothing for it: no marker, no error, no
  request. The cursor moves past its open tag only when the tag is self-closing, and past
  its close tag only at depth 0. So in a well-formed document with this one directive the
  directive's own text is dropped from the output when it is self-closing or the depth
  is 0; at a depth above 0 a directive with a close tag of its own stays in the output,
  after a second copy of the text before it.
\<close>

theorem directive_without_href:
  "(int depth < depthLimit h \<and> xincludeSupport h \<and> isInclude h node
      \<and> parseModeOf node = ''xml'' \<and> map_of (attributes node) ''href'' = None
      \<and> tagStartBefore xmlSource p = Some ts \<longrightarrow>
        resolve_opentag h xmlSource depth baseUri node p l c st =
          st\<lparr> foundXi := True,
              outputParts := outputParts st @ [Literal (substring xmlSource (lastPos st) ts)],
              lastPos := (if isSelfClosing node then p else lastPos st) \<rparr>
        \<and> resolve_closetag h depth node q st' = (if depth = 0 then st'\<lparr> lastPos := q \<rparr> else st'))
   \<and> (int depth < depthLimit h \<and> xincludeSupport h \<and> isInclude h node
      \<and> parseModeOf node = ''xml'' \<and> map_of (attributes node) ''href'' = None
      \<and> tagStartBefore xmlSource p = Some ts
      \<and> events (parser h xmlSource) = pre @ [OpenTag node p l c] @ mid @ [CloseTag node q] @ post
      \<and> failure (parser h xmlSource) = None
      \<and> list_all (\<lambda>ev. \<not> isInclude h (event_node ev)) (pre @ mid @ post) \<longrightarrow>
        resolveXIncludes h xmlSource depth baseUri =
          (Inr (substring xmlSource 0 ts
                @ drop (if depth = 0 then q else if isSelfClosing node then p else 0) xmlSource),
           []))"
proof (intro conjI impI)
  assume "int depth < depthLimit h \<and> xincludeSupport h \<and> isInclude h node
      \<and> parseModeOf node = ''xml'' \<and> map_of (attributes node) ''href'' = None
      \<and> tagStartBefore xmlSource p = Some ts"
  then show "resolve_opentag h xmlSource depth baseUri node p l c st =
          st\<lparr> foundXi := True,
              outputParts := outputParts st @ [Literal (substring xmlSource (lastPos st) ts)],
              lastPos := (if isSelfClosing node then p else lastPos st) \<rparr>"
    and "resolve_closetag h depth node q st' = (if depth = 0 then st'\<lparr> lastPos := q \<rparr> else st')"
    by (simp_all add: resolve_opentag_no_href resolve_closetag_def)
next
  assume a: "int depth < depthLimit h \<and> xincludeSupport h \<and> isInclude h node
      \<and> parseModeOf node = ''xml'' \<and> map_of (attributes node) ''href'' = None
      \<and> tagStartBefore xmlSource p = Some ts
      \<and> events (parser h xmlSource) = pre @ [OpenTag node p l c] @ mid @ [CloseTag node q] @ post
      \<and> failure (parser h xmlSource) = None
      \<and> list_all (\<lambda>ev. \<not> isInclude h (event_node ev)) (pre @ mid @ post)"
  then have "scan h xmlSource depth baseUri (events (parser h xmlSource)) =
           \<lparr> outputParts = [Literal (substring xmlSource 0 ts)],
             lastPos = (if depth = 0 then q else if isSelfClosing node then p else 0),
             foundXi = True, effects = [] \<rparr>"
    by (simp only: scan_lone_directive_without_href)
  with a show "resolveXIncludes h xmlSource depth baseUri =
          (Inr (substring xmlSource 0 ts
                @ drop (if depth = 0 then q else if isSelfClosing node then p else 0) xmlSource),
           [])"
    by (simp add: resolveXIncludes_unfold settledPart_Literal Let_def)
qed

text \<open>The claim as stated fails on \<open>doc_c0\<close>, whose directive brings \<open>doc_nohref\<close>
  in at depth 1: the directive without href is still in the output.\<close>

theorem directive_without_href_counterexample:
  \<open>resolveXIncludes sample doc_c0 0 top_uri =
     (Inr ''<?xml-xi-map-enter uri="file:///w/nohref.xml" parent-line="1" parent-col="74"?><r xmlns:xi="http://www.w3.org/2001/XInclude">A<r xmlns:xi="http://www.w3.org/2001/XInclude">A<xi:include></xi:include>B</r><?xml-xi-map-leave?>'',
      [OpenRequest (file_uri ''nohref.xml'')])
   \<and> resolveXIncludes sample doc_nohref 1 (Some (file_uri ''nohref.xml'')) =
     (Inr ''<r xmlns:xi="http://www.w3.org/2001/XInclude">A<r xmlns:xi="http://www.w3.org/2001/XInclude">A<xi:include></xi:include>B</r>'', [])\<close>
  by code_simp

theorem directive_without_href_witness:
  \<open>resolveXIncludes sample doc_nohref 0 top_uri =
     (Inr ''<r xmlns:xi="http://www.w3.org/2001/XInclude">AB</r>'', [])
   \<and> resolveXIncludes sample doc_nohref_sc 1 top_uri =
     (Inr ''<r xmlns:xi="http://www.w3.org/2001/XInclude">AB</r>'', [])
   \<and> resolveXIncludes sample doc_nohref 1 top_uri =
     (Inr ''<r xmlns:xi="http://www.w3.org/2001/XInclude">A<r xmlns:xi="http://www.w3.org/2001/XInclude">A<xi:include></xi:include>B</r>'', [])\<close>
proof -
  note main = directive_without_href [THEN conjunct2, rule_format]
  let ?r = "plain_tag ''r'' [xmlns_xi_attr] False"
  have hyps: "int d < depthLimit sample \<and> xincludeSupport sample
      \<and> isInclude sample (xi_tag ''include'' [] False)
      \<and> parseModeOf (xi_tag ''include'' [] False) = ''xml''
      \<and> map_of (attributes (xi_tag ''include'' [] False)) ''href'' = None
      \<and> tagStartBefore doc_nohref 59 = Some 47
      \<and> events (parser sample doc_nohref) =
          [OpenTag ?r 46 1 46] @ [OpenTag (xi_tag ''include'' [] False) 59 1 59] @ []
          @ [CloseTag (xi_tag ''include'' [] False) 72] @ [CloseTag ?r 77]
      \<and> failure (parser sample doc_nohref) = None
      \<and> list_all (\<lambda>ev. \<not> isInclude sample (event_node ev))
           ([OpenTag ?r 46 1 46] @ [] @ [CloseTag ?r 77])" if "d < 2" for d :: nat
  proof -
    from that have "d = 0 \<or> d = 1" by auto
    then show ?thesis by (elim disjE; hypsubst; code_simp)
  qed
  have hyps_sc: "int 1 < depthLimit sample \<and> xincludeSupport sample
      \<and> isInclude sample (xi_tag ''include'' [] True)
      \<and> parseModeOf (xi_tag ''include'' [] True) = ''xml''
      \<and> map_of (attributes (xi_tag ''include'' [] True)) ''href'' = None
      \<and> tagStartBefore doc_nohref_sc 60 = Some 47
      \<and> events (parser sample doc_nohref_sc) =
          [OpenTag ?r 46 1 46] @ [OpenTag (xi_tag ''include'' [] True) 60 1 60] @ []
          @ [CloseTag (xi_tag ''include'' [] True) 60] @ [CloseTag ?r 65]
      \<and> failure (parser sample doc_nohref_sc) = None
      \<and> list_all (\<lambda>ev. \<not> isInclude sample (event_node ev))
           ([OpenTag ?r 46 1 46] @ [] @ [CloseTag ?r 65])"
    by code_simp
  have v0: \<open>substring doc_nohref 0 47
        @ drop (if (0::nat) = 0 then 72 else if isSelfClosing (xi_tag ''include'' [] False) then 59 else 0)
            doc_nohref = ''<r xmlns:xi="http://www.w3.org/2001/XInclude">AB</r>''\<close>
    by code_simp
  have v1: \<open>substring doc_nohref 0 47
        @ drop (if (1::nat) = 0 then 72 else if isSelfClosing (xi_tag ''include'' [] False) then 59 else 0)
            doc_nohref = ''<r xmlns:xi="http://www.w3.org/2001/XInclude">A<r xmlns:xi="http://www.w3.org/2001/XInclude">A<xi:include></xi:include>B</r>''\<close>
    by code_simp
  have v2: \<open>substring doc_nohref_sc 0 47
        @ drop (if (1::nat) = 0 then 60 else if isSelfClosing (xi_tag ''include'' [] True) then 60 else 0)
            doc_nohref_sc = ''<r xmlns:xi="http://www.w3.org/2001/XInclude">AB</r>''\<close>
    by code_simp
  have a: "resolveXIncludes sample doc_nohref 0 top_uri =
     (Inr ''<r xmlns:xi=\"http://www.w3.org/2001/XInclude\">AB</r>'', [])"
    using main [OF hyps [of 0], of top_uri] unfolding v0 by simp
  have b: "resolveXIncludes sample doc_nohref_sc 1 top_uri =
     (Inr ''<r xmlns:xi=\"http://www.w3.org/2001/XInclude\">AB</r>'', [])"
    using main [OF hyps_sc, of top_uri] unfolding v2 by simp
  have c: "resolveXIncludes sample doc_nohref 1 top_uri =
     (Inr ''<r xmlns:xi=\"http://www.w3.org/2001/XInclude\">A<r xmlns:xi=\"http://www.w3.org/2001/XInclude\">A<xi:include></xi:include>B</r>'', [])"
    using main [OF hyps [of 1], of top_uri] unfolding v1 by simp
  from a b c show ?thesis by blast
qed

section \<open>The fragment selector on well-formed documents\<close>

subsection \<open>The scan, event by event\<close>

lemma dispatch_append:
  "dispatch f (xs @ ys) s = (case dispatch f xs s of Inl e \<Rightarrow> Inl e | Inr s' \<Rightarrow> dispatch f ys s')"
  by (induction xs arbitrary: s) (auto split: sum.splits)

lemma select_scan_Nil [simp]:
  "select_scan src sch [] s = Inr s"
  by (simp add: select_scan_def)

lemma select_scan_append:
  "select_scan src sch (xs @ ys) s =
     (case select_scan src sch xs s of Inl e \<Rightarrow> Inl e | Inr s' \<Rightarrow> select_scan src sch ys s')"
  by (simp add: select_scan_def dispatch_append split: sum.splits)

lemma select_scan_element:
  "select_scan src sch (events_of (Element node p l c q kids)) s =
     (case select_opentag src sch node p s of
        Inl e \<Rightarrow> Inl e
      | Inr s1 \<Rightarrow>
          (case select_scan src sch (concat (map events_of kids)) s1 of
             Inl e \<Rightarrow> Inl e
           | Inr s2 \<Rightarrow> Inr (select_closetag sch q s2)))"
  by (simp add: select_scan_def dispatch_append select_event_def split: sum.splits)

lemma select_scan_forest:
  "select_scan src sch (concat (map events_of (t # ts))) s =
     (case select_scan src sch (events_of t) s of
        Inl e \<Rightarrow> Inl e
      | Inr s1 \<Rightarrow> select_scan src sch (concat (map events_of ts)) s1)"
  by (simp add: select_scan_append)

lemma select_scan_element_Inr:
  "select_scan src sch (events_of (Element node p l c q kids)) s = Inr s' \<longleftrightarrow>
     (\<exists>s1 s2. select_opentag src sch node p s = Inr s1
        \<and> select_scan src sch (concat (map events_of kids)) s1 = Inr s2
        \<and> s' = select_closetag sch q s2)"
  by (auto simp: select_scan_element simp del: events_of.simps split: sum.splits)

lemma select_scan_forest_Inr:
  "select_scan src sch (concat (map events_of (t # ts))) s = Inr s' \<longleftrightarrow>
     (\<exists>sm. select_scan src sch (events_of t) s = Inr sm
        \<and> select_scan src sch (concat (map events_of ts)) sm = Inr s')"
  by (auto simp: select_scan_forest simp del: events_of.simps concat.simps list.map
           split: sum.splits)

lemma markTarget_fields:
  assumes "markTarget src node p s = Inr s1"
  shows "nesting s1 = nesting s" "childCounts s1 = childCounts s"
    "elementPath s1 = elementPath s" "positionalCounts s1 = positionalCounts s"
    "idCounts s1 = idCounts s" "idAnchorPath s1 = idAnchorPath s"
    "idAnchorFound s1 = idAnchorFound s" "found s1"
    "startPos s1 = tagStartBefore src p"
    "endPos s1 = (if isSelfClosing node then Some p else endPos s)"
    "targetDepth s1 = (if isSelfClosing node then None else Some (nesting s))"
  using assms by (auto simp: markTarget_def Let_def split: option.splits if_splits)

lemma select_opentag_structure:
  assumes "select_opentag src sch node p s = Inr s1"
  shows "nesting s1 = nesting s + 1"
    and "childCounts s1 = butlast (childCounts s) @ [last (childCounts s) + 1, 0]"
    and "elementPath s1 = elementPath s @ [last (childCounts s) + 1]"
    and "positionalCounts s1 = positionalCounts s"
    and "idCounts s1 = idCounts s"
  using assms
  by (auto simp: select_opentag_def Let_def markTarget_def
           split: if_splits sum.splits ElementScheme.splits option.splits)

lemma select_closetag_structure:
  "nesting (select_closetag sch q s) = nesting s - 1"
  "childCounts (select_closetag sch q s) = butlast (childCounts s)"
  "elementPath (select_closetag sch q s) = butlast (elementPath s)"
  "found (select_closetag sch q s) = found s"
  "startPos (select_closetag sch q s) = startPos s"
  "idAnchorPath (select_closetag sch q s) = idAnchorPath s"
  "idAnchorFound (select_closetag sch q s) = idAnchorFound s"
  by (auto simp: select_closetag_def Let_def
           split: if_splits sum.splits ElementScheme.splits option.splits)

lemma balanced_open:
  "balanced s \<Longrightarrow> select_opentag src sch node p s = Inr s1 \<Longrightarrow> balanced s1"
  by (simp add: balanced_def select_opentag_structure butlast_append)

text \<open>The scan of an element leaves the path as it was and counts one more child.\<close>

lemma select_scan_frame:
  "balanced s \<Longrightarrow> select_scan src sch (events_of t) s = Inr s' \<Longrightarrow>
   balanced s' \<and> elementPath s' = elementPath s
   \<and> childCounts s' = elementPath s @ [last (childCounts s) + 1]"
proof (induction t arbitrary: s s')
  case (Element node p l c q kids)
  from Element.prems(2) obtain s1 s2 where
    o: "select_opentag src sch node p s = Inr s1"
    and k: "select_scan src sch (concat (map events_of kids)) s1 = Inr s2"
    and c: "s' = select_closetag sch q s2"
    unfolding select_scan_element_Inr by blast
  have b1: "balanced s1" using Element.prems(1) o by (rule balanced_open)
  have forest: "balanced s2 \<and> elementPath s2 = elementPath s1
                \<and> childCounts s2 = elementPath s1 @ [last (childCounts s1) + length ks]"
    if "set ks \<subseteq> set kids" "balanced s1"
      "select_scan src sch (concat (map events_of ks)) s1 = Inr s2" for ks s1 s2
    using that
  proof (induction ks arbitrary: s1)
    case Nil
    then show ?case by (auto simp: balanced_def) (metis append_butlast_last_id)
  next
    case (Cons t ts)
    from Cons.prems(3) obtain sm where
      t: "select_scan src sch (events_of t) s1 = Inr sm"
      and ts: "select_scan src sch (concat (map events_of ts)) sm = Inr s2"
      unfolding select_scan_forest_Inr by blast
    from Cons.prems(1) have "t \<in> set kids" by simp
    from Element.IH [OF this Cons.prems(2) t]
    have m: "balanced sm" "elementPath sm = elementPath s1"
      "childCounts sm = elementPath s1 @ [last (childCounts s1) + 1]" by simp_all
    from Cons.IH [OF _ m(1) ts] Cons.prems(1) m show ?case by simp
  qed
  from forest [OF subset_refl b1 k]
  have f: "balanced s2" "elementPath s2 = elementPath s1"
    "childCounts s2 = elementPath s1 @ [last (childCounts s1) + length kids]" by simp_all
  have p1: "elementPath s1 = elementPath s @ [last (childCounts s) + 1]"
    using o by (rule select_opentag_structure)
  from Element.prems(1) have bs: "butlast (childCounts s) = elementPath s"
    "nesting s = length (elementPath s)"
    by (simp_all add: balanced_def)
  show ?case
    using f p1 bs
    by (simp add: c balanced_def select_closetag_structure butlast_append)
qed


subsection \<open>The recorded child counts of a positional pointer\<close>





lemma prefix_snoc_iff:
  assumes "prefix path steps"
  shows "prefix (path @ [k]) steps \<longleftrightarrow> length path < length steps \<and> steps ! length path = k"
proof -
  from assms obtain zs where steps: "steps = path @ zs" by (auto simp: prefix_def)
  show ?thesis
    by (cases zs) (auto simp: steps)
qed


lemma descend_from_Cons:
  "descend_from t (k # ks) =
     (if 1 \<le> k \<and> k \<le> nchildren t then descend_from (children t ! (k - 1)) ks else None)"
  by (simp add: descend_from_def nchildren_def)



subsection \<open>The failure of a positional pointer\<close>



lemma balanced_init:
  "balanced selector_init"
  by (simp add: balanced_def selector_init_def)








lemma selectXPointerFragment_well_formed:
  assumes "well_formed_run run root" and "parseElementScheme xpointer = Inr (Some es)"
  shows "selectXPointerFragment run src xpointer =
           (case select_scan src (Inl es) (events_of root) selector_init of
              Inl e \<Rightarrow> Inl e
            | Inr s \<Rightarrow>
                (case (startPos s, endPos s) of
                   (Some a, Some b) \<Rightarrow> Inr (substring src a b)
                 | _ \<Rightarrow> Inl (selectionFailure (Inl es) s)))"
  using assms
  by (simp add: selectXPointerFragment_def well_formed_run_def parse_with_def select_scan_def
                Let_def
           split: sum.splits)



subsection \<open>The handlers under an anchored pointer\<close>

lemma open_found:
  "found s \<Longrightarrow> select_opentag src sch node p s = Inr (opened s)"
  by (simp add: select_opentag_def opened_def Let_def)

lemma open_fresh_other:
  "fresh s \<Longrightarrow> \<not> matchesId (attributes node) ident \<Longrightarrow>
   select_opentag src (Inl (IdScheme ident steps)) node p s = Inr (opened s)"
  by (simp add: select_opentag_def opened_def fresh_def Let_def)

lemma open_fresh_anchor:
  "fresh s \<Longrightarrow> matchesId (attributes node) ident \<Longrightarrow>
   select_opentag src (Inl (IdScheme ident steps)) node p s =
     (if steps = []
      then markTarget src node p ((opened s)\<lparr> idAnchorFound := True,
                                              idAnchorPath := Some (elementPath (opened s)) \<rparr>)
      else Inr ((opened s)\<lparr> idAnchorFound := True,
                           idAnchorPath := Some (elementPath (opened s)) \<rparr>))"
  by (auto simp: select_opentag_def opened_def fresh_def Let_def markTarget_def
           split: option.splits sum.splits)

lemma open_seeking:
  "seeking A s \<Longrightarrow>
   select_opentag src (Inl (IdScheme ident steps)) node p s =
     (if length A < length (elementPath (opened s))
         \<and> take (length A) (elementPath (opened s)) = A
         \<and> drop (length A) (elementPath (opened s)) = steps
      then markTarget src node p (opened s) else Inr (opened s))"
  by (auto simp: select_opentag_def opened_def seeking_def Let_def)

lemma opened_fields [simp]:
  "nesting (opened s) = nesting s + 1"
  "childCounts (opened s) = butlast (childCounts s) @ [last (childCounts s) + 1, 0]"
  "elementPath (opened s) = elementPath s @ [last (childCounts s) + 1]"
  "found (opened s) = found s" "startPos (opened s) = startPos s"
  "endPos (opened s) = endPos s" "targetDepth (opened s) = targetDepth s"
  "idCounts (opened s) = idCounts s" "idAnchorPath (opened s) = idAnchorPath s"
  "idAnchorFound (opened s) = idAnchorFound s"
  by (simp_all add: opened_def)

lemma balanced_opened:
  "balanced s \<Longrightarrow> balanced (opened s)"
  by (simp add: balanced_def butlast_append)

lemma close_span:
  "endPos (select_closetag sch q s) = (if targetDepth s = Some (nesting s) then Some q else endPos s)"
  "targetDepth (select_closetag sch q s) =
     (if targetDepth s = Some (nesting s) then None else targetDepth s)"
  by (auto simp: select_closetag_def Let_def
           split: if_splits sum.splits ElementScheme.splits option.splits)

lemma close_idCounts:
  "idAnchorPath s = Some A \<Longrightarrow> idAnchorFound s \<Longrightarrow>
   idCounts (select_closetag (Inl (IdScheme ident steps)) q s) 0 =
     (if elementPath s = A then Some (last (childCounts s)) else idCounts s 0)"
  by (auto simp: select_closetag_def Let_def)

lemma close_fresh:
  "fresh s \<Longrightarrow> fresh (select_closetag (Inl (IdScheme ident steps)) q s)"
  by (auto simp: select_closetag_def Let_def fresh_def)

lemma close_seeking:
  "seeking A s \<Longrightarrow> seeking A (select_closetag sch q s)"
  by (simp add: seeking_def select_closetag_structure close_span)

lemma balanced_close:
  "balanced s \<Longrightarrow> elementPath s \<noteq> [] \<Longrightarrow> balanced (select_closetag sch q s)"
  by (auto simp: balanced_def select_closetag_structure butlast_conv_take take_eq_Nil
      dest: arg_cong [where f = length])

text \<open>Once the span is complete, no event changes it.\<close>

lemma found_kept:
  "found s \<Longrightarrow> targetDepth s = None \<Longrightarrow>
   \<exists>s'. select_scan src sch evs s = Inr s' \<and> found s' \<and> targetDepth s' = None
        \<and> startPos s' = startPos s \<and> endPos s' = endPos s"
proof (induction evs arbitrary: s)
  case Nil
  then show ?case by simp
next
  case (Cons ev evs)
  have "\<exists>s1. select_event src sch ev s = Inr s1 \<and> found s1 \<and> targetDepth s1 = None
          \<and> startPos s1 = startPos s \<and> endPos s1 = endPos s"
    using Cons.prems
    by (cases ev) (simp_all add: select_event_def open_found select_closetag_structure close_span)
  then obtain s1 where s1: "select_event src sch ev s = Inr s1" "found s1" "targetDepth s1 = None"
    "startPos s1 = startPos s" "endPos s1 = endPos s" by blast
  from Cons.IH [OF s1(2,3)] s1 show ?case
    by (simp add: select_scan_def)
qed

lemma selected_kept:
  assumes "selected src x s"
  shows "\<exists>s'. select_scan src sch evs s = Inr s' \<and> selected src x s'"
proof -
  from assms have "found s" "targetDepth s = None"
    by (simp_all add: selected_def)
  from found_kept [OF this, of src sch evs] obtain s' where
    "select_scan src sch evs s = Inr s'" "found s'" "targetDepth s' = None"
    "startPos s' = startPos s" "endPos s' = endPos s" by blast
  with assms show ?thesis
    by (simp add: selected_def)
qed

lemma selects_then:
  assumes "selects src x r"
  shows "selects src x (case r of Inl e \<Rightarrow> Inl e | Inr s \<Rightarrow> select_scan src sch evs s)"
proof (cases "tagStartBefore src (open_position x)")
  case None
  with assms show ?thesis by (simp add: selects_def)
next
  case (Some a)
  with assms obtain s where s: "r = Inr s" "selected src x s"
    by (auto simp: selects_def split: sum.splits)
  from selected_kept [OF s(2), of sch evs] s(1) Some show ?thesis
    by (auto simp: selects_def)
qed

lemma selected_close:
  "selected src x s \<Longrightarrow> selected src x (select_closetag sch q s)"
  by (simp add: selected_def select_closetag_structure close_span)

lemma selects_close:
  "selects src x r \<Longrightarrow>
   selects src x (case r of Inl e \<Rightarrow> Inl e | Inr s \<Rightarrow> Inr (select_closetag sch q s))"
  by (auto simp: selects_def selected_close split: option.splits sum.splits)


subsection \<open>Scanning a sequence of siblings\<close>

lemma forest_invariant:
  assumes "\<And>t s. t \<in> set ks \<Longrightarrow> I s \<Longrightarrow> \<exists>s'. select_scan src sch (events_of t) s = Inr s' \<and> I s'"
    and "I s"
  shows "\<exists>s'. select_scan src sch (concat (map events_of ks)) s = Inr s' \<and> I s'"
  using assms
proof (induction ks arbitrary: s)
  case Nil
  then show ?case by simp
next
  case (Cons t ts)
  from Cons.prems(1) [of t s] Cons.prems(2) obtain sm where
    sm: "select_scan src sch (events_of t) s = Inr sm" "I sm" by auto
  have "\<exists>s'. select_scan src sch (concat (map events_of ts)) sm = Inr s' \<and> I s'"
  proof (rule Cons.IH [OF _ sm(2)])
    fix u s
    assume "u \<in> set ts" "I s"
    then show "\<exists>s'. select_scan src sch (events_of u) s = Inr s' \<and> I s'"
      using Cons.prems(1) [of u s] by simp
  qed
  with sm(1) show ?case
    unfolding select_scan_forest_Inr by blast
qed

text \<open>While the target is open, the events of its descendants leave the span alone.\<close>

lemma inside_kept:
  "balanced s \<Longrightarrow> found s \<Longrightarrow> targetDepth s = Some d \<Longrightarrow> d \<le> nesting s \<Longrightarrow>
   \<exists>s'. select_scan src sch (events_of t) s = Inr s' \<and> balanced s'
        \<and> elementPath s' = elementPath s \<and> found s' \<and> targetDepth s' = Some d
        \<and> startPos s' = startPos s \<and> endPos s' = endPos s"
proof (induction t arbitrary: s)
  case (Element node p l c q kids)
  let ?I = "\<lambda>u. balanced u \<and> elementPath u = elementPath (opened s) \<and> found u
                \<and> targetDepth u = Some d \<and> startPos u = startPos s \<and> endPos u = endPos s"
  have o: "select_opentag src sch node p s = Inr (opened s)"
    using Element.prems(2) by (rule open_found)
  have I1: "?I (opened s)"
    using Element.prems by (simp add: balanced_opened)
  have "\<exists>s2. select_scan src sch (concat (map events_of kids)) (opened s) = Inr s2 \<and> ?I s2"
  proof (rule forest_invariant [where I = ?I, OF _ I1])
    fix t u
    assume t: "t \<in> set kids" and u: "?I u"
    then have "d \<le> nesting u"
      using Element.prems(1,4) by (simp add: balanced_def)
    from Element.IH [OF t, of u] u this
    show "\<exists>s'. select_scan src sch (events_of t) u = Inr s' \<and> ?I s'"
      by auto
  qed
  then obtain s2 where s2: "select_scan src sch (concat (map events_of kids)) (opened s) = Inr s2"
    and I2: "?I s2" by blast
  from I2 Element.prems(1,4) have n: "nesting s2 = nesting s + 1"
    by (simp add: balanced_def)
  let ?s' = "select_closetag sch q s2"
  have "select_scan src sch (events_of (Element node p l c q kids)) s = Inr ?s'"
    unfolding select_scan_element_Inr using o s2 by blast
  moreover have "balanced ?s'"
    using I2 by (simp add: balanced_close)
  moreover have "elementPath ?s' = elementPath s"
    using I2 by (simp add: select_closetag_structure)
  moreover have "found ?s'" "startPos ?s' = startPos s"
    using I2 by (simp_all add: select_closetag_structure)
  moreover have "targetDepth ?s' = Some d" "endPos ?s' = endPos s"
    using I2 n Element.prems(4) by (simp_all add: close_span)
  ultimately show ?case by blast
qed

text \<open>The element whose open tag marks it as the target ends with its span.\<close>

lemma mark_selects:
  assumes "balanced s0"
  shows "selects src (Element node p l c q kids)
           (case markTarget src node p s0 of
              Inl e \<Rightarrow> Inl e
            | Inr s1 \<Rightarrow>
                (case select_scan src sch (concat (map events_of kids)) s1 of
                   Inl e \<Rightarrow> Inl e
                 | Inr s2 \<Rightarrow> Inr (select_closetag sch q s2)))"
proof (cases "tagStartBefore src p")
  case None
  then show ?thesis
    by (simp add: selects_def markTarget_def)
next
  case (Some a)
  then obtain s1 where m: "markTarget src node p s0 = Inr s1"
    by (cases "isSelfClosing node") (simp_all add: markTarget_def Let_def)
  note f = markTarget_fields [OF m]
  show ?thesis
  proof (cases "isSelfClosing node")
    case True
    from found_kept [of s1 src sch "concat (map events_of kids)"] f True
    obtain s2 where s2: "select_scan src sch (concat (map events_of kids)) s1 = Inr s2"
      "found s2" "targetDepth s2 = None" "startPos s2 = startPos s1" "endPos s2 = endPos s1"
      by auto
    with f True Some have "selected src (Element node p l c q kids) (select_closetag sch q s2)"
      by (simp add: selected_def select_closetag_structure close_span)
    with m s2(1) Some show ?thesis
      by (simp add: selects_def)
  next
    case False
    let ?I = "\<lambda>u. balanced u \<and> elementPath u = elementPath s0 \<and> found u
                  \<and> targetDepth u = Some (nesting s0) \<and> startPos u = startPos s1
                  \<and> endPos u = endPos s1"
    have b1: "balanced s1"
      using assms f by (simp add: balanced_def)
    have I1: "?I s1"
      using b1 f False by simp
    have "\<exists>s2. select_scan src sch (concat (map events_of kids)) s1 = Inr s2 \<and> ?I s2"
    proof (rule forest_invariant [where I = ?I, OF _ I1])
      fix t u
      assume "t \<in> set kids" and u: "?I u"
      then have "nesting s0 \<le> nesting u"
        using assms by (simp add: balanced_def)
      from inside_kept [of u "nesting s0" src sch t] u this
      show "\<exists>s'. select_scan src sch (events_of t) u = Inr s' \<and> ?I s'"
        by auto
    qed
    then obtain s2 where s2: "select_scan src sch (concat (map events_of kids)) s1 = Inr s2"
      and I2: "?I s2" by blast
    from I2 assms have "nesting s2 = nesting s0"
      by (simp add: balanced_def)
    with I2 f False Some have "selected src (Element node p l c q kids) (select_closetag sch q s2)"
      by (simp add: selected_def select_closetag_structure close_span)
    with m s2 Some show ?thesis
      by (simp add: selects_def)
  qed
qed


lemma forest_frame:
  "balanced s \<Longrightarrow> select_scan src sch (concat (map events_of ks)) s = Inr s' \<Longrightarrow>
   balanced s' \<and> elementPath s' = elementPath s
   \<and> last (childCounts s') = last (childCounts s) + length ks"
proof (induction ks arbitrary: s)
  case Nil
  then show ?case by simp
next
  case (Cons t ts)
  from Cons.prems(2) obtain sm where
    sm: "select_scan src sch (events_of t) s = Inr sm"
        "select_scan src sch (concat (map events_of ts)) sm = Inr s'"
    unfolding select_scan_forest_Inr by blast
  from select_scan_frame [OF Cons.prems(1) sm(1)]
  have f: "balanced sm" "elementPath sm = elementPath s"
    "last (childCounts sm) = last (childCounts s) + 1" by simp_all
  from Cons.IH [OF f(1) sm(2)] f show ?case by simp
qed

subsection \<open>Before the anchor\<close>

lemma first_with_id_in_None:
  "first_with_id_in ident ks = None \<longleftrightarrow> (\<forall>t\<in>set ks. first_with_id ident t = None)"
  by (induction ks) (auto split: option.splits)

lemma fresh_opened:
  "fresh s \<Longrightarrow> fresh (opened s)"
  by (simp add: fresh_def)

text \<open>An element without the id, nor any below it, leaves the scan as it was.\<close>

lemma fresh_kept:
  "balanced s \<Longrightarrow> fresh s \<Longrightarrow> first_with_id ident t = None \<Longrightarrow>
   \<exists>s'. select_scan src (Inl (IdScheme ident steps)) (events_of t) s = Inr s' \<and> fresh s'"
proof (induction t arbitrary: s)
  case (Element node p l c q kids)
  let ?sch = "Inl (IdScheme ident steps) :: ElementScheme + string"
  let ?I = "\<lambda>u. balanced u \<and> fresh u"
  from Element.prems(3) have nm: "\<not> matchesId (attributes node) ident"
    and none: "\<forall>t\<in>set kids. first_with_id ident t = None"
    by (simp_all add: first_with_id_in_None split: if_splits)
  have o: "select_opentag src ?sch node p s = Inr (opened s)"
    using Element.prems(2) nm by (rule open_fresh_other)
  have I1: "?I (opened s)"
    using Element.prems by (simp add: balanced_opened fresh_opened)
  have "\<exists>s2. select_scan src ?sch (concat (map events_of kids)) (opened s) = Inr s2 \<and> ?I s2"
  proof (rule forest_invariant [where I = ?I, OF _ I1])
    fix t u
    assume t: "t \<in> set kids" and u: "?I u"
    from Element.IH [OF t, of u] u none t obtain s' where
      s': "select_scan src ?sch (events_of t) u = Inr s'" "fresh s'" by auto
    from select_scan_frame [of u src ?sch t s'] u s'(1) have "balanced s'" by simp
    with s' show "\<exists>s'. select_scan src ?sch (events_of t) u = Inr s' \<and> ?I s'" by blast
  qed
  then obtain s2 where s2: "select_scan src ?sch (concat (map events_of kids)) (opened s) = Inr s2"
    and I2: "?I s2" by blast
  have "select_scan src ?sch (events_of (Element node p l c q kids)) s
          = Inr (select_closetag ?sch q s2)"
    unfolding select_scan_element_Inr using o s2 by blast
  moreover have "fresh (select_closetag ?sch q s2)"
    using I2 by (simp add: close_fresh)
  ultimately show ?case by blast
qed

subsection \<open>Beside the anchor\<close>

lemma apart_snoc:
  assumes "apart A P"
  shows "apart A (P @ [j])"
proof -
  have "\<not> prefix A (P @ [j])"
  proof
    assume "prefix A (P @ [j])"
    then have "A = P @ [j] \<or> prefix A P" by (auto simp: prefix_snoc)
    with assms show False by (auto simp: apart_def)
  qed
  moreover have "\<not> prefix (P @ [j]) A"
    using assms by (auto simp: apart_def dest: append_prefixD)
  ultimately show ?thesis by (simp add: apart_def)
qed

lemma apart_sibling:
  assumes "prefix (P @ [k]) A" and "j \<noteq> k"
  shows "apart A (P @ [j])"
proof -
  from assms(1) obtain zs where A: "A = P @ k # zs" by (auto simp: prefix_def)
  show ?thesis
    using assms(2) by (auto simp: apart_def A prefix_def)
qed

text \<open>An element off the path of the anchor leaves the scan seeking, and the count
  recorded for the anchor as it was.\<close>

lemma apart_kept:
  "balanced s \<Longrightarrow> seeking A s \<Longrightarrow> apart A (elementPath s @ [last (childCounts s) + 1]) \<Longrightarrow>
   \<exists>s'. select_scan src (Inl (IdScheme ident steps)) (events_of t) s = Inr s'
        \<and> seeking A s' \<and> idCounts s' 0 = idCounts s 0"
proof (induction t arbitrary: s)
  case (Element node p l c q kids)
  let ?sch = "Inl (IdScheme ident steps) :: ElementScheme + string"
  let ?P = "elementPath (opened s)"
  let ?I = "\<lambda>u. balanced u \<and> elementPath u = ?P \<and> seeking A u \<and> idCounts u 0 = idCounts s 0"
  from Element.prems(3) have ap: "apart A ?P" by simp
  have "take (length A) ?P \<noteq> A"
  proof
    assume "take (length A) ?P = A"
    then have "prefix A ?P" by (metis take_is_prefix)
    with ap show False by (simp add: apart_def)
  qed
  then have o: "select_opentag src ?sch node p s = Inr (opened s)"
    using Element.prems(2) by (simp add: open_seeking del: opened_fields)
  have I1: "?I (opened s)"
    using Element.prems by (simp add: balanced_opened seeking_def)
  have "\<exists>s2. select_scan src ?sch (concat (map events_of kids)) (opened s) = Inr s2 \<and> ?I s2"
  proof (rule forest_invariant [where I = ?I, OF _ I1])
    fix t u
    assume t: "t \<in> set kids" and u: "?I u"
    from ap u have "apart A (elementPath u @ [last (childCounts u) + 1])"
      by (simp only: apart_snoc)
    from Element.IH [OF t _ _ this] u obtain s' where
      s': "select_scan src ?sch (events_of t) u = Inr s'" "seeking A s'"
          "idCounts s' 0 = idCounts u 0" by blast
    from select_scan_frame [of u src ?sch t s'] u s'(1)
    have "balanced s'" "elementPath s' = elementPath u" by simp_all
    with s' u show "\<exists>s'. select_scan src ?sch (events_of t) u = Inr s' \<and> ?I s'" by auto
  qed
  then obtain s2 where s2: "select_scan src ?sch (concat (map events_of kids)) (opened s) = Inr s2"
    and I2: "?I s2" by blast
  from ap have "?P \<noteq> A" by (auto simp: apart_def)
  with I2 have "idCounts (select_closetag ?sch q s2) 0 = idCounts s 0"
    by (simp add: close_idCounts seeking_def del: opened_fields)
  moreover have "select_scan src ?sch (events_of (Element node p l c q kids)) s
          = Inr (select_closetag ?sch q s2)"
    unfolding select_scan_element_Inr using o s2 by blast
  moreover have "seeking A (select_closetag ?sch q s2)"
    using I2 by (simp add: close_seeking)
  ultimately show ?case by blast
qed

subsection \<open>Below the anchor\<close>

lemma target_in_snoc:
  "target_in (r @ [k]) t steps =
     (if prefix r steps \<and> length r < length steps \<and> steps ! length r = k
      then descend_from t (drop (length r + 1) steps) else None)"
proof (cases "prefix r steps")
  case True
  then show ?thesis
    by (simp add: target_in_def prefix_snoc_iff)
next
  case False
  then have "\<not> prefix (r @ [k]) steps"
    by (auto dest: append_prefixD)
  with False show ?thesis
    by (simp add: target_in_def)
qed

lemma target_among_nth:
  "target_among r j ks steps =
     (if prefix r steps \<and> length r < length steps \<and> j < steps ! length r
         \<and> steps ! length r \<le> j + length ks
      then descend_from (ks ! (steps ! length r - j - 1)) (drop (length r + 1) steps)
      else None)"
proof (induction ks arbitrary: j)
  case Nil
  show ?case by auto
next
  case (Cons t ts)
  show ?case
  proof (cases "prefix r steps \<and> length r < length steps \<and> steps ! length r = j + 1")
    case True
    then show ?thesis
      by (simp add: target_in_snoc Cons.IH split: option.splits)
  next
    case False
    then have "target_in (r @ [j + 1]) t steps = None"
      by (simp only: target_in_snoc) auto
    then have "target_among r j (t # ts) steps = target_among r (j + 1) ts steps"
      by simp
    also have "\<dots> = (if prefix r steps \<and> length r < length steps \<and> j + 1 < steps ! length r
         \<and> steps ! length r \<le> j + 1 + length ts
      then descend_from (ts ! (steps ! length r - (j + 1) - 1)) (drop (length r + 1) steps)
      else None)"
      by (rule Cons.IH)
    also have "\<dots> = (if prefix r steps \<and> length r < length steps \<and> j < steps ! length r
         \<and> steps ! length r \<le> j + length (t # ts)
      then descend_from ((t # ts) ! (steps ! length r - j - 1)) (drop (length r + 1) steps)
      else None)"
      using False by (auto simp: nth_Cons')
    finally show ?thesis .
  qed
qed

lemma target_in_element:
  "target_in r (Element node p l c q kids) steps =
     (if r = steps then Some (Element node p l c q kids) else target_among r 0 kids steps)"
proof (cases "prefix r steps")
  case False
  then show ?thesis
    by (auto simp: target_in_def target_among_nth)
next
  case True
  then obtain zs where steps: "steps = r @ zs" by (auto simp: prefix_def)
  show ?thesis
  proof (cases zs)
    case Nil
    then show ?thesis
      by (simp add: steps target_in_def descend_from_def)
  next
    case (Cons k ks)
    then show ?thesis
      by (simp add: steps target_in_def target_among_nth descend_from_Cons nchildren_def)
  qed
qed

lemma target_among_anchor:
  "steps \<noteq> [] \<Longrightarrow> target_among [] 0 (children a) steps = descend_from a steps"
  by (cases steps) (simp_all add: target_among_nth descend_from_Cons nchildren_def)


text \<open>The search among the children of the anchor, or of an element below it.\<close>

lemma seek_among:
  assumes step: "\<And>t u. t \<in> set ks \<Longrightarrow> balanced u \<Longrightarrow> seeking A u \<Longrightarrow> idCounts u 0 = v \<Longrightarrow>
             elementPath u = A @ r \<Longrightarrow>
             sought A v src (target_in (r @ [last (childCounts u) + 1]) t steps)
               (select_scan src sch (events_of t) u)"
    and "balanced s" and "seeking A s" and "idCounts s 0 = v" and "elementPath s = A @ r"
    and "last (childCounts s) = j"
  shows "sought A v src (target_among r j ks steps)
           (select_scan src sch (concat (map events_of ks)) s)"
  using assms
proof (induction ks arbitrary: s j)
  case Nil
  then show ?case by (simp add: sought_def)
next
  case (Cons t ts)
  have t: "sought A v src (target_in (r @ [j + 1]) t steps) (select_scan src sch (events_of t) s)"
    using Cons.prems(1) [of t s] Cons.prems(2-6) by simp
  show ?case
  proof (cases "target_in (r @ [j + 1]) t steps")
    case (Some x)
    with t have "selects src x (select_scan src sch (events_of t) s)"
      by (simp add: sought_def)
    from selects_then [OF this, of sch "concat (map events_of ts)"] Some
    show ?thesis
      by (simp only: select_scan_forest target_among.simps sought_def option.case)
  next
    case None
    with t obtain sm where sm: "select_scan src sch (events_of t) s = Inr sm"
      "seeking A sm" "idCounts sm 0 = v"
      by (auto simp: sought_def split: sum.splits)
    from select_scan_frame [OF Cons.prems(2) sm(1)] Cons.prems(5,6)
    have f: "balanced sm" "elementPath sm = A @ r" "last (childCounts sm) = j + 1"
      by simp_all
    have "sought A v src (target_among r (j + 1) ts steps)
            (select_scan src sch (concat (map events_of ts)) sm)"
    proof (rule Cons.IH [OF _ f(1) sm(2,3) f(2,3)])
      fix t' u
      assume "t' \<in> set ts" "balanced u" "seeking A u" "idCounts u 0 = v" "elementPath u = A @ r"
      then show "sought A v src (target_in (r @ [last (childCounts u) + 1]) t' steps)
                   (select_scan src sch (events_of t') u)"
        using Cons.prems(1) [of t' u] by simp
    qed
    with None sm(1) show ?thesis
      by (simp only: select_scan_forest target_among.simps option.case sum.case)
  qed
qed

lemma seek_below:
  "balanced s \<Longrightarrow> seeking A s \<Longrightarrow> elementPath s @ [last (childCounts s) + 1] = A @ r \<Longrightarrow>
   r \<noteq> [] \<Longrightarrow>
   sought A (idCounts s 0) src (target_in r t steps)
     (select_scan src (Inl (IdScheme ident steps)) (events_of t) s)"
proof (induction t arbitrary: s r)
  case (Element node p l c q kids)
  let ?sch = "Inl (IdScheme ident steps) :: ElementScheme + string"
  let ?t = "Element node p l c q kids"
  have P: "elementPath (opened s) = A @ r"
    using Element.prems(3) by simp
  have b1: "balanced (opened s)"
    using Element.prems(1) by (rule balanced_opened)
  have o: "select_opentag src ?sch node p s =
             (if r = steps then markTarget src node p (opened s) else Inr (opened s))"
    using Element.prems(2,4) by (simp add: open_seeking P del: opened_fields)
  show ?case
  proof (cases "r = steps")
    case True
    with o have "select_opentag src ?sch node p s = markTarget src node p (opened s)"
      by simp
    with mark_selects [OF b1, of src node p l c q kids ?sch] True
    show ?thesis
      by (simp add: select_scan_element target_in_element sought_def del: events_of.simps)
  next
    case False
    have among: "sought A (idCounts s 0) src (target_among r 0 kids steps)
            (select_scan src ?sch (concat (map events_of kids)) (opened s))"
    proof (rule seek_among [where j = 0, OF _ b1 _ _ P])
      show "seeking A (opened s)"
        using Element.prems(2) by (simp add: seeking_def)
      show "idCounts (opened s) 0 = idCounts s 0" by simp
      show "last (childCounts (opened s)) = 0" by simp
    next
      fix t u
      assume t: "t \<in> set kids" and u: "balanced u" "seeking A u" "idCounts u 0 = idCounts s 0"
        "elementPath u = A @ r"
      from Element.IH [OF t u(1,2), of "r @ [last (childCounts u) + 1]"] u(3,4)
      show "sought A (idCounts s 0) src (target_in (r @ [last (childCounts u) + 1]) t steps)
              (select_scan src ?sch (events_of t) u)"
        by simp
    qed
    have scan: "select_scan src ?sch (events_of ?t) s =
                  (case select_scan src ?sch (concat (map events_of kids)) (opened s) of
                     Inl e \<Rightarrow> Inl e | Inr s2 \<Rightarrow> Inr (select_closetag ?sch q s2))"
      using o False by (simp only: select_scan_element if_False sum.case)
    show ?thesis
    proof (cases "target_among r 0 kids steps")
      case (Some x)
      with among have "selects src x (select_scan src ?sch (concat (map events_of kids)) (opened s))"
        by (simp add: sought_def)
      from selects_close [OF this, of ?sch q] Some False show ?thesis
        by (simp only: scan target_in_element sought_def if_False option.case)
    next
      case None
      with among obtain s2 where
        s2: "select_scan src ?sch (concat (map events_of kids)) (opened s) = Inr s2"
        "seeking A s2" "idCounts s2 0 = idCounts s 0"
        by (auto simp: sought_def split: sum.splits)
      from forest_frame [OF b1 s2(1)] P have "elementPath s2 = A @ r" by simp
      with Element.prems(4) have "elementPath s2 \<noteq> A" by simp
      with s2(2,3) have "idCounts (select_closetag ?sch q s2) 0 = idCounts s 0"
        by (simp add: close_idCounts seeking_def)
      moreover have "seeking A (select_closetag ?sch q s2)"
        using s2(2) by (rule close_seeking)
      ultimately show ?thesis
        using None False s2(1)
        by (simp only: scan target_in_element sought_def if_False option.case sum.case)
    qed
  qed
qed


subsection \<open>Meeting the anchor\<close>

lemma anchor_among:
  assumes step: "\<And>t u. t \<in> set ks \<Longrightarrow> balanced u \<Longrightarrow> fresh u \<Longrightarrow>
             first_with_id ident t = Some a \<Longrightarrow>
             anchored src a steps (elementPath u @ [last (childCounts u) + 1])
               (select_scan src (Inl (IdScheme ident steps)) (events_of t) u)"
    and "balanced s" and "fresh s" and "first_with_id_in ident ks = Some a"
  shows "\<exists>k. anchored src a steps (elementPath s @ [k])
               (select_scan src (Inl (IdScheme ident steps)) (concat (map events_of ks)) s)"
  using assms
proof (induction ks arbitrary: s)
  case Nil
  then show ?case by simp
next
  case (Cons t ts)
  let ?sch = "Inl (IdScheme ident steps) :: ElementScheme + string"
  show ?case
  proof (cases "first_with_id ident t")
    case None
    with Cons.prems(4) have rest: "first_with_id_in ident ts = Some a" by simp
    from fresh_kept [OF Cons.prems(2,3) None, where src = src and steps = steps] obtain sm where
      sm: "select_scan src ?sch (events_of t) s = Inr sm" "fresh sm" by blast
    from select_scan_frame [OF Cons.prems(2) sm(1)]
    have f: "balanced sm" "elementPath sm = elementPath s" by simp_all
    have "\<exists>k. anchored src a steps (elementPath sm @ [k])
               (select_scan src ?sch (concat (map events_of ts)) sm)"
    proof (rule Cons.IH [OF _ f(1) sm(2) rest])
      fix t' u
      assume "t' \<in> set ts" "balanced u" "fresh u" "first_with_id ident t' = Some a"
      then show "anchored src a steps (elementPath u @ [last (childCounts u) + 1])
                   (select_scan src ?sch (events_of t') u)"
        using Cons.prems(1) [of t' u] by simp
    qed
    with sm(1) f(2) show ?thesis
      by (simp only: select_scan_forest sum.case)
  next
    case (Some a')
    with Cons.prems(4) have a: "first_with_id ident t = Some a" by simp
    let ?k = "last (childCounts s) + 1"
    have t: "anchored src a steps (elementPath s @ [?k]) (select_scan src ?sch (events_of t) s)"
      using Cons.prems(1) [of t s] Cons.prems(2,3) a by simp
    have "anchored src a steps (elementPath s @ [?k])
            (select_scan src ?sch (concat (map events_of (t # ts))) s)"
    proof (cases "descend_from a steps")
      case (Some x)
      with t have "selects src x (select_scan src ?sch (events_of t) s)"
        by (simp add: anchored_def)
      from selects_then [OF this, of ?sch "concat (map events_of ts)"] Some
      show ?thesis
        by (simp only: select_scan_forest anchored_def option.case)
    next
      case None
      with t obtain sm A where sm: "select_scan src ?sch (events_of t) s = Inr sm"
        "seeking A sm" "prefix (elementPath s @ [?k]) A" "idCounts sm 0 = Some (nchildren a)"
        by (auto simp: anchored_def split: sum.splits option.splits)
      from select_scan_frame [OF Cons.prems(2) sm(1)]
      have f: "balanced sm" "elementPath sm = elementPath s" "last (childCounts sm) = ?k"
        by simp_all
      let ?I = "\<lambda>u. balanced u \<and> elementPath u = elementPath s \<and> ?k \<le> last (childCounts u)
                    \<and> seeking A u \<and> idCounts u 0 = Some (nchildren a)"
      have I1: "?I sm" using f sm by simp
      have "\<exists>s'. select_scan src ?sch (concat (map events_of ts)) sm = Inr s' \<and> ?I s'"
      proof (rule forest_invariant [where I = ?I, OF _ I1])
        fix t' u
        assume u: "?I u"
        then have "last (childCounts u) + 1 \<noteq> ?k" by simp
        from apart_sibling [OF sm(3) this] u
        have "apart A (elementPath u @ [last (childCounts u) + 1])" by simp
        from apart_kept [where s = u and A = A and ident = ident and steps = steps
            and src = src and t = t', OF _ _ this] u obtain s' where
          s': "select_scan src ?sch (events_of t') u = Inr s'" "seeking A s'"
              "idCounts s' 0 = idCounts u 0" by blast
        from select_scan_frame [of u src ?sch t' s'] u s'(1)
        have "balanced s'" "elementPath s' = elementPath u"
          "last (childCounts s') = last (childCounts u) + 1" by simp_all
        with s' u show "\<exists>s'. select_scan src ?sch (events_of t') u = Inr s' \<and> ?I s'"
          by auto
      qed
      then obtain s' where s': "select_scan src ?sch (concat (map events_of ts)) sm = Inr s'"
        and I': "?I s'" by blast
      from I' have "idAnchorPath s' = Some A" by (simp add: seeking_def)
      with I' sm(3) have "anchored src a steps (elementPath s @ [?k]) (Inr s')"
        using None by (simp add: anchored_def)
      with sm(1) s' show ?thesis
        by (simp only: select_scan_forest sum.case)
    qed
    then show ?thesis by blast
  qed
qed

text \<open>The scan of the element that holds the first element with the id.\<close>

lemma anchor_met:
  "balanced s \<Longrightarrow> fresh s \<Longrightarrow> first_with_id ident t = Some a \<Longrightarrow>
   anchored src a steps (elementPath s @ [last (childCounts s) + 1])
     (select_scan src (Inl (IdScheme ident steps)) (events_of t) s)"
proof (induction t arbitrary: s)
  case (Element node p l c q kids)
  let ?sch = "Inl (IdScheme ident steps) :: ElementScheme + string"
  let ?t = "Element node p l c q kids"
  let ?P = "elementPath s @ [last (childCounts s) + 1]"
  show ?case
  proof (cases "matchesId (attributes node) ident")
    case True
    with Element.prems(3) have a: "a = ?t" by simp
    let ?s1 = "(opened s)\<lparr> idAnchorFound := True, idAnchorPath := Some (elementPath (opened s)) \<rparr>"
    have b1: "balanced ?s1"
      using balanced_opened [OF Element.prems(1)] by (simp add: balanced_def)
    have o: "select_opentag src ?sch node p s =
               (if steps = [] then markTarget src node p ?s1 else Inr ?s1)"
      using Element.prems(2) True by (rule open_fresh_anchor)
    show ?thesis
    proof (cases "steps = []")
      case True
      with o have o1: "select_opentag src ?sch node p s = markTarget src node p ?s1" by simp
      have sel: "selects src ?t (select_scan src ?sch (events_of ?t) s)"
        using mark_selects [OF b1, of src node p l c q kids ?sch]
        by (simp only: select_scan_element o1)
      have d: "descend_from a steps = Some ?t"
        using True by (simp add: descend_from_def a)
      show ?thesis
        using sel by (simp only: anchored_def d option.case)
    next
      case False
      with o have o': "select_opentag src ?sch node p s = Inr ?s1" by simp
      have sk: "seeking ?P ?s1"
        using Element.prems(2) by (simp add: seeking_def fresh_def)
      have among: "sought ?P (idCounts s 0) src (target_among [] 0 kids steps)
              (select_scan src ?sch (concat (map events_of kids)) ?s1)"
      proof (rule seek_among [where j = 0 and r = "[]", OF _ b1 sk])
        show "idCounts ?s1 0 = idCounts s 0" by simp
        show "elementPath ?s1 = ?P @ []" by simp
        show "last (childCounts ?s1) = 0" by simp
      next
        fix t u
        assume u: "balanced u" "seeking ?P u" "idCounts u 0 = idCounts s 0"
          "elementPath u = ?P @ []"
        from seek_below [OF u(1,2), of "[last (childCounts u) + 1]" src t steps ident] u(3,4)
        show "sought ?P (idCounts s 0) src (target_in ([] @ [last (childCounts u) + 1]) t steps)
                (select_scan src ?sch (events_of t) u)"
          by simp
      qed
      have tg: "target_among [] 0 kids steps = descend_from a steps"
        using target_among_anchor [OF False, of a] by (simp add: a)
      have scan: "select_scan src ?sch (events_of ?t) s =
                    (case select_scan src ?sch (concat (map events_of kids)) ?s1 of
                       Inl e \<Rightarrow> Inl e | Inr s2 \<Rightarrow> Inr (select_closetag ?sch q s2))"
        using o' by (simp only: select_scan_element sum.case)
      show ?thesis
      proof (cases "descend_from a steps")
        case (Some x)
        with among tg
        have "selects src x (select_scan src ?sch (concat (map events_of kids)) ?s1)"
          by (simp add: sought_def)
        from selects_close [OF this, of ?sch q] Some show ?thesis
          by (simp only: scan anchored_def option.case)
      next
        case None
        with among tg obtain s2 where
          s2: "select_scan src ?sch (concat (map events_of kids)) ?s1 = Inr s2"
            "seeking ?P s2"
          by (auto simp: sought_def split: sum.splits)
        from forest_frame [OF b1 s2(1)]
        have f: "elementPath s2 = ?P" "last (childCounts s2) = length kids" by simp_all
        let ?s' = "select_closetag ?sch q s2"
        have "idCounts ?s' 0 = Some (nchildren a)"
          using s2(2) f by (simp add: close_idCounts seeking_def a nchildren_def)
        moreover have "seeking ?P ?s'"
          using s2(2) by (rule close_seeking)
        moreover from this have "idAnchorPath ?s' = Some ?P"
          by (simp add: seeking_def)
        ultimately have "anchored src a steps ?P (Inr ?s')"
          using None by (simp add: anchored_def)
        with s2(1) show ?thesis
          by (simp only: scan sum.case)
      qed
    qed
  next
    case False
    with Element.prems(3) have a: "first_with_id_in ident kids = Some a" by simp
    have o: "select_opentag src ?sch node p s = Inr (opened s)"
      using Element.prems(2) False by (rule open_fresh_other)
    have b1: "balanced (opened s)"
      using Element.prems(1) by (rule balanced_opened)
    have "\<exists>k. anchored src a steps (elementPath (opened s) @ [k])
               (select_scan src ?sch (concat (map events_of kids)) (opened s))"
    proof (rule anchor_among [OF _ b1 fresh_opened [OF Element.prems(2)] a])
      fix t u
      assume "t \<in> set kids" "balanced u" "fresh u" "first_with_id ident t = Some a"
      then show "anchored src a steps (elementPath u @ [last (childCounts u) + 1])
                   (select_scan src ?sch (events_of t) u)"
        by (rule Element.IH)
    qed
    then obtain k where among: "anchored src a steps (?P @ [k])
               (select_scan src ?sch (concat (map events_of kids)) (opened s))"
      by auto
    have scan: "select_scan src ?sch (events_of ?t) s =
                  (case select_scan src ?sch (concat (map events_of kids)) (opened s) of
                     Inl e \<Rightarrow> Inl e | Inr s2 \<Rightarrow> Inr (select_closetag ?sch q s2))"
      using o by (simp only: select_scan_element sum.case)
    show ?thesis
    proof (cases "descend_from a steps")
      case (Some x)
      with among
      have "selects src x (select_scan src ?sch (concat (map events_of kids)) (opened s))"
        by (simp add: anchored_def)
      from selects_close [OF this, of ?sch q] Some show ?thesis
        by (simp only: scan anchored_def option.case)
    next
      case None
      with among obtain s2 A where
        s2: "select_scan src ?sch (concat (map events_of kids)) (opened s) = Inr s2"
          "seeking A s2" "prefix (?P @ [k]) A" "idCounts s2 0 = Some (nchildren a)"
        by (auto simp: anchored_def split: sum.splits option.splits)
      from forest_frame [OF b1 s2(1)] have f: "elementPath s2 = ?P" by simp
      from s2(3) obtain zs where "A = ?P @ k # zs"
        by (auto simp: prefix_def)
      then have pre: "prefix ?P A" and ne: "?P \<noteq> A"
        by simp_all
      let ?s' = "select_closetag ?sch q s2"
      have "idCounts ?s' 0 = Some (nchildren a)"
        using s2(2,4) f ne by (simp add: close_idCounts seeking_def)
      moreover have "seeking A ?s'"
        using s2(2) by (rule close_seeking)
      moreover from this have "idAnchorPath ?s' = Some A"
        by (simp add: seeking_def)
      ultimately have "anchored src a steps ?P (Inr ?s')"
        using None pre by (simp add: anchored_def)
      with s2(1) show ?thesis
        by (simp only: scan sum.case)
    qed
  qed
qed

subsection \<open>Anchored pointers on well-formed documents\<close>

lemma fresh_init:
  "fresh selector_init"
  by (simp add: fresh_def selector_init_def)

lemma anchored_not_found:
  assumes "well_formed_run run root"
    and "parseElementScheme xpointer = Inr (Some (IdScheme ident steps))"
    and "first_with_id ident root = None"
  shows "selectXPointerFragment run src xpointer = Inl (TargetNotFound ident)"
proof -
  from fresh_kept [OF balanced_init fresh_init assms(3), where src = src and steps = steps]
  obtain s' where s': "select_scan src (Inl (IdScheme ident steps)) (events_of root) selector_init = Inr s'"
    "fresh s'" by blast
  then show ?thesis
    by (simp add: selectXPointerFragment_well_formed [OF assms(1,2)] fresh_def selectionFailure_def)
qed

lemma anchored_target:
  assumes "well_formed_run run root"
    and "parseElementScheme xpointer = Inr (Some (IdScheme ident steps))"
    and "first_with_id ident root = Some a"
    and "descend_from a steps = Some x"
  shows "selectXPointerFragment run src xpointer = span_of src x"
proof -
  from anchor_met [OF balanced_init fresh_init assms(3), where src = src and steps = steps] assms(4)
  have sel: "selects src x (select_scan src (Inl (IdScheme ident steps)) (events_of root) selector_init)"
    by (simp add: anchored_def)
  show ?thesis
  proof (cases "tagStartBefore src (open_position x)")
    case None
    with sel show ?thesis
      by (simp add: selectXPointerFragment_well_formed [OF assms(1,2)] selects_def span_of_def)
  next
    case (Some st)
    with sel obtain s' where
      s': "select_scan src (Inl (IdScheme ident steps)) (events_of root) selector_init = Inr s'"
      "selected src x s'"
      by (auto simp: selects_def split: sum.splits)
    with Some show ?thesis
      by (simp add: selectXPointerFragment_well_formed [OF assms(1,2)] selected_def span_of_def)
  qed
qed

lemma anchored_first_step_short:
  assumes "well_formed_run run root"
    and "parseElementScheme xpointer = Inr (Some (IdScheme ident steps))"
    and "first_with_id ident root = Some a"
    and "steps \<noteq> []" and "nchildren a < steps ! 0"
  shows "selectXPointerFragment run src xpointer =
           Inl (StepOutOfRange 1 (steps ! 0) (nchildren a) (Some ident))"
proof -
  from assms(4,5) have "descend_from a steps = None"
    by (cases steps) (simp_all add: descend_from_Cons)
  with anchor_met [OF balanced_init fresh_init assms(3), where src = src and steps = steps]
  obtain s' A where
    s': "select_scan src (Inl (IdScheme ident steps)) (events_of root) selector_init = Inr s'"
    "seeking A s'" "idCounts s' 0 = Some (nchildren a)"
    by (auto simp: anchored_def split: sum.splits option.splits)
  with assms(4,5) show ?thesis
    by (simp add: selectXPointerFragment_well_formed [OF assms(1,2)] seeking_def
          selectionFailure_def)
qed

text \<open>
  C6. On a well-formed document, a pointer \<open>element(ID/steps)\<close> takes as its anchor the
  first element in document order that carries the id, whatever later elements carry it
  too. With no steps the verbatim span of the anchor is selected; with steps, the span of
  the element reached by descending the 1-based child indices from the anchor. When the
  first step exceeds the number of children of the anchor, the failure is \<open>step 1 out of
  range\<close>, citing the step, that number and the anchor; when no element carries the id,
  the failure is \<open>target not found\<close> for the id.
\<close>

theorem anchored_selection:
  assumes "well_formed_run run root"
    and "parseElementScheme xpointer = Inr (Some (IdScheme ident steps))"
  shows "(first_with_id ident root = None \<longrightarrow>
            selectXPointerFragment run src xpointer = Inl (TargetNotFound ident))
       \<and> (first_with_id ident root = Some a \<longrightarrow>
            (steps = [] \<longrightarrow> selectXPointerFragment run src xpointer = span_of src a)
          \<and> (descend_from a steps = Some x \<longrightarrow>
                selectXPointerFragment run src xpointer = span_of src x)
          \<and> (steps \<noteq> [] \<and> nchildren a < steps ! 0 \<longrightarrow>
                selectXPointerFragment run src xpointer =
                  Inl (StepOutOfRange 1 (steps ! 0) (nchildren a) (Some ident))))"
proof (intro conjI impI)
  assume "first_with_id ident root = None"
  with assms show "selectXPointerFragment run src xpointer = Inl (TargetNotFound ident)"
    by (rule anchored_not_found)
next
  assume a: "first_with_id ident root = Some a" and "steps = []"
  then have "descend_from a steps = Some a"
    by (simp add: descend_from_def)
  with assms a show "selectXPointerFragment run src xpointer = span_of src a"
    by (rule anchored_target)
next
  assume "first_with_id ident root = Some a" "descend_from a steps = Some x"
  with assms show "selectXPointerFragment run src xpointer = span_of src x"
    by (rule anchored_target)
next
  assume a: "first_with_id ident root = Some a" and "steps \<noteq> [] \<and> nchildren a < steps ! 0"
  then have "steps \<noteq> []" "nchildren a < steps ! 0" by simp_all
  with assms a show "selectXPointerFragment run src xpointer =
                  Inl (StepOutOfRange 1 (steps ! 0) (nchildren a) (Some ident))"
    by (rule anchored_first_step_short)
qed

theorem anchored_selection_witness:
  \<open>selectXPointerFragment run_twice doc_twice ''element(x)'' = Inr ''<a id="x"><b/></a>''
   \<and> selectXPointerFragment run_twice doc_twice ''element(x/1)'' = Inr ''<b/>''
   \<and> selectXPointerFragment run_twice doc_twice ''element(x/2)'' =
       Inl (StepOutOfRange 1 2 1 (Some ''x''))
   \<and> message (StepOutOfRange 1 2 1 (Some ''x'')) =
       ''XInclude xpointer element() step 1 out of range after anchor "x": requested 2, found 1 child elements.''
   \<and> selectXPointerFragment run_twice doc_twice ''element(nope/1)'' =
       Inl (TargetNotFound ''nope'')
   \<and> message (TargetNotFound ''nope'') = ''XInclude xpointer target not found: nope''\<close>
proof -
  let ?a = "Element (plain_tag ''a'' [plain_attr ''id'' ''x''] False) 13 1 13 21
              [Element (plain_tag ''b'' [] True) 17 1 17 17 []]"
  let ?b = "Element (plain_tag ''b'' [] True) 17 1 17 17 []"
  have wf: "well_formed_run run_twice root_twice"
    by (simp add: well_formed_run_def run_twice_def complete_run_def)
  have p0: "parseElementScheme ''element(x)'' = Inr (Some (IdScheme ''x'' []))"
    by code_simp
  have p1: "parseElementScheme ''element(x/1)'' = Inr (Some (IdScheme ''x'' [1]))"
    by code_simp
  have p2: "parseElementScheme ''element(x/2)'' = Inr (Some (IdScheme ''x'' [2]))"
    by code_simp
  have p3: "parseElementScheme ''element(nope/1)'' = Inr (Some (IdScheme ''nope'' [1]))"
    by code_simp
  have first: "first_with_id ''x'' root_twice = Some ?a"
    by code_simp
  have none: "first_with_id ''nope'' root_twice = None"
    by code_simp
  have d1: "descend_from ?a [1] = Some ?b"
    by code_simp
  have n: "nchildren ?a = 1"
    by code_simp
  have sa: \<open>span_of doc_twice ?a = Inr ''<a id="x"><b/></a>''\<close>
    by code_simp
  have sb: "span_of doc_twice ?b = Inr ''<b/>''"
    by code_simp
  have m1: \<open>message (StepOutOfRange 1 2 1 (Some ''x'')) =
       ''XInclude xpointer element() step 1 out of range after anchor "x": requested 2, found 1 child elements.''\<close>
    by code_simp
  have m2: "message (TargetNotFound ''nope'') = ''XInclude xpointer target not found: nope''"
    by code_simp
  from anchored_selection [OF wf p0, where a = ?a and x = ?a and src = doc_twice] first sa
  have r0: \<open>selectXPointerFragment run_twice doc_twice ''element(x)'' = Inr ''<a id="x"><b/></a>''\<close>
    by simp
  from anchored_selection [OF wf p1, where a = ?a and x = ?b and src = doc_twice] first d1 sb
  have r1: "selectXPointerFragment run_twice doc_twice ''element(x/1)'' = Inr ''<b/>''"
    by simp
  from anchored_selection [OF wf p2, where a = ?a and x = ?b and src = doc_twice] first n
  have r2: "selectXPointerFragment run_twice doc_twice ''element(x/2)'' =
       Inl (StepOutOfRange 1 2 1 (Some ''x''))"
    by simp
  from anchored_selection [OF wf p3, where a = ?a and x = ?b and src = doc_twice] none
  have r3: "selectXPointerFragment run_twice doc_twice ''element(nope/1)'' =
       Inl (TargetNotFound ''nope'')"
    by simp
  from r0 r1 r2 m1 r3 m2 show ?thesis
    by (intro conjI)
qed

end
